theory Spec2Isabelle
  imports Complex_Main
begin

chapter \<open>The embedding\<close>

section \<open>Typed arrays\<close>

text \<open>
  The pixel code works on \<^verbatim>\<open>Uint8Array\<close> and \<^verbatim>\<open>Uint8ClampedArray\<close> buffers through
  linear indices that may leave the buffer (\<^verbatim>\<open>i-1\<close>, \<^verbatim>\<open>i-w\<close>, \<^verbatim>\<open>i+w\<close>). A read outside a
  typed array yields \<^verbatim>\<open>undefined\<close> (here \<open>None\<close>), a write outside is ignored.
  Indices are \<open>int\<close>; the width and height of a decoded image are \<open>nat\<close>; the doubles of
  the source are exact numbers (\<open>int\<close> where the code only produces integers, \<open>real\<close>
  otherwise), so rounding errors of the floating-point unit are not part of the model.
\<close>

definition rd :: "'a list \<Rightarrow> int \<Rightarrow> 'a option" where
  "rd a i = (if 0 \<le> i \<and> i < int (length a) then Some (a ! nat i) else None)"

definition wr :: "'a list \<Rightarrow> int \<Rightarrow> 'a \<Rightarrow> 'a list" where
  "wr a i v = (if 0 \<le> i \<and> i < int (length a) then a[nat i := v] else a)"

section \<open>backgroundExtractor.ts: the masks\<close>

subsection \<open>Colour test\<close>

text \<open>\<^verbatim>\<open>const t = tolerance * 4.42; const threshSq = t * t;\<close>\<close>

definition threshSq :: "real \<Rightarrow> real" where
  "threshSq tol = (let t = tol * 4.42 in t * t)"

text \<open>
  \<^verbatim>\<open>(r-bgR)**2 + (g-bgG)**2 + (b-bgB)**2\<close> for pixel \<open>n\<close>, with \<^verbatim>\<open>bgR = data[0]\<close>,
  \<^verbatim>\<open>bgG = data[1]\<close>, \<^verbatim>\<open>bgB = data[2]\<close>. A read outside \<open>data\<close> makes the sum \<^verbatim>\<open>NaN\<close>
  (\<open>None\<close>), and \<^verbatim>\<open>NaN <= threshSq\<close> is false.
\<close>

definition sqdist :: "int list \<Rightarrow> int \<Rightarrow> int option" where
  "sqdist data n =
     (case (rd data (n * 4), rd data (n * 4 + 1), rd data (n * 4 + 2),
            rd data 0, rd data 1, rd data 2) of
        (Some r, Some g, Some b, Some bgR, Some bgG, Some bgB) \<Rightarrow>
          Some ((r - bgR)\<^sup>2 + (g - bgG)\<^sup>2 + (b - bgB)\<^sup>2)
      | _ \<Rightarrow> None)"

definition near_bg :: "int list \<Rightarrow> real \<Rightarrow> int \<Rightarrow> bool" where
  "near_bg data tol n =
     (case sqdist data n of Some d \<Rightarrow> real_of_int d \<le> threshSq tol | None \<Rightarrow> False)"

subsection \<open>The stack loop shared by the flood fills\<close>

text \<open>
  The three stack loops of the source (\<^verbatim>\<open>generateFloodFillMask\<close>, \<^verbatim>\<open>fillInternalHoles\<close>,
  the component search of \<^verbatim>\<open>detectSegments\<close>) have one shape:
  \<^verbatim>\<open>const i = stack.pop();
  for (const n of [i-1, i+1, i-w, i+w])
    if (<test on i and n> && visited[n] === 0) { visited[n] = 1; stack.push(n); }\<close>
  They differ in the test \<open>adm i n\<close>, which each caller passes. The stack is a list whose
  head is the top. \<open>visit\<close> is the body of the \<^verbatim>\<open>for\<close> loop for one neighbour,
  \<open>expand\<close> the whole \<^verbatim>\<open>for\<close> loop.
\<close>

definition visit ::
  "(int \<Rightarrow> int \<Rightarrow> bool) \<Rightarrow> int \<Rightarrow> int \<Rightarrow> nat list \<times> int list \<Rightarrow> nat list \<times> int list" where
  "visit adm i n s =
     (case s of (visited, stack) \<Rightarrow>
        if adm i n \<and> rd visited n = Some 0 then (wr visited n 1, n # stack) else s)"

definition expand ::
  "(int \<Rightarrow> int \<Rightarrow> bool) \<Rightarrow> nat \<Rightarrow> int \<Rightarrow> nat list \<times> int list \<Rightarrow> nat list \<times> int list" where
  "expand adm w i s = fold (visit adm i) [i - 1, i + 1, i - int w, i + int w] s"

text \<open>
  The loop ends: every push marks a cell that was unmarked, every round pops one cell.
\<close>

definition unvisited :: "nat list \<Rightarrow> nat" where
  "unvisited v = card {k. k < length v \<and> v ! k = 0}"

definition fill_measure :: "nat list \<times> int list \<Rightarrow> nat" where
  "fill_measure s = 2 * unvisited (fst s) + length (snd s)"

lemma unvisited_wr:
  assumes "rd v n = Some 0"
  shows "Suc (unvisited (wr v n 1)) = unvisited v"
proof -
  from assms have n: "0 \<le> n" "nat n < length v" "v ! nat n = 0"
    by (auto simp: rd_def split: if_splits)
  have "{k. k < length (wr v n 1) \<and> wr v n 1 ! k = 0} = {k. k < length v \<and> v ! k = 0} - {nat n}"
    using n by (auto simp: wr_def nth_list_update)
  moreover have "nat n \<in> {k. k < length v \<and> v ! k = 0}" using n by simp
  moreover have "finite {k. k < length v \<and> v ! k = 0}" by simp
  ultimately show ?thesis
    unfolding unvisited_def
    by (metis (no_types, lifting) card_Suc_Diff1)
qed

lemma visit_measure: "fill_measure (visit adm i n s) \<le> fill_measure s"
proof (cases s)
  case (Pair v st)
  show ?thesis
  proof (cases "adm i n \<and> rd v n = Some 0")
    case True
    then have "Suc (unvisited (wr v n 1)) = unvisited v" by (intro unvisited_wr) simp
    then show ?thesis using True Pair by (simp add: visit_def fill_measure_def del: One_nat_def)
  next
    case False
    then show ?thesis using Pair by (auto simp add: visit_def)
  qed
qed

lemma expand_measure: "fill_measure (expand adm w i s) \<le> fill_measure s"
proof -
  have "fill_measure (fold (visit adm i) ns s) \<le> fill_measure s" for ns
  proof (induction ns arbitrary: s)
    case Nil
    then show ?case by simp
  next
    case (Cons n ns)
    have "fill_measure (fold (visit adm i) ns (visit adm i n s)) \<le> fill_measure (visit adm i n s)"
      by (rule Cons.IH)
    also have "\<dots> \<le> fill_measure s" by (rule visit_measure)
    finally show ?case by simp
  qed
  then show ?thesis by (simp only: expand_def)
qed

lemma expand_measure_pair:
  "(v', s') = expand adm w i (v, s) \<Longrightarrow> 2 * unvisited v' + length s' \<le> 2 * unvisited v + length s"
  using expand_measure[of adm w i "(v, s)"] by (auto simp: fill_measure_def dest: sym)

function fill_loop ::
  "(int \<Rightarrow> int \<Rightarrow> bool) \<Rightarrow> nat \<Rightarrow> nat list \<Rightarrow> int list \<Rightarrow> nat list" where
  "fill_loop adm w visited [] = visited"
| "fill_loop adm w visited (i # stack) =
     (case expand adm w i (visited, stack) of
        (visited', stack') \<Rightarrow> fill_loop adm w visited' stack')"
  by pat_completeness auto
termination
  apply (relation "measure (\<lambda>(adm, w, visited, stack). fill_measure (visited, stack))")
   apply simp
  apply (frule expand_measure_pair)
  apply (drule sym)
  apply (simp add: fill_measure_def)
  done

subsection \<open>generateFloodFillMask\<close>

text \<open>
  \<^verbatim>\<open>const stack = [0, w-1, (h-1)*w, (h*w)-1]; stack.forEach(i => visited[i] = 1);\<close>
  The last element of the array is the top of the stack, hence \<open>rev\<close>. In the loop
  \<^verbatim>\<open>if (n >= 0 && n < w*h) { if (Math.abs(nx - x) > 1) continue;
     if (visited[n] === 0) { ... if (dist <= threshSq) { visited[n] = 1; stack.push(n); } } }\<close>
  The store \<^verbatim>\<open>mask[i] = 0\<close> inside the loop is overwritten by the closing loop
  \<^verbatim>\<open>mask[i] = visited[i] === 1 ? 0 : 1\<close> over every cell, so the mask is built there.
\<close>

definition flood_adm :: "int list \<Rightarrow> nat \<Rightarrow> nat \<Rightarrow> real \<Rightarrow> int \<Rightarrow> int \<Rightarrow> bool" where
  "flood_adm data w h tol i n =
     (0 \<le> n \<and> n < int (w * h) \<and> \<not> 1 < \<bar>n mod int w - i mod int w\<bar> \<and> near_bg data tol n)"

definition corner_seeds :: "nat \<Rightarrow> nat \<Rightarrow> int list" where
  "corner_seeds w h = [0, int w - 1, (int h - 1) * int w, int h * int w - 1]"

definition generateFloodFillMask :: "int list \<Rightarrow> nat \<Rightarrow> nat \<Rightarrow> real \<Rightarrow> nat list" where
  "generateFloodFillMask data w h tol =
     (let stack = corner_seeds w h;
          visited = fold (\<lambda>i v. wr v i 1) stack (replicate (w * h) 0);
          visited = fill_loop (flood_adm data w h tol) w visited (rev stack)
      in map (\<lambda>v. if v = 1 then 0 else 1) visited)"

subsection \<open>generateGlobalMask\<close>

definition generateGlobalMask :: "int list \<Rightarrow> nat \<Rightarrow> nat \<Rightarrow> real \<Rightarrow> nat list" where
  "generateGlobalMask data w h tol =
     map (\<lambda>i. if near_bg data tol (int i) then 0 else 1) [0..<w * h]"

section \<open>backgroundExtractor.ts: morphology\<close>

subsection \<open>erode\<close>

text \<open>
  \<^verbatim>\<open>for (const idx of [i-1, i+1, i-w, i+w])
     if (idx >= 0 && idx < mask.length && curr[idx] === 0) { erase = true; break; }\<close>
  \<open>cur\<close> is a copy of the mask, so \<^verbatim>\<open>mask.length\<close> is \<open>length cur\<close>.
\<close>

definition erase_at :: "nat list \<Rightarrow> nat \<Rightarrow> int \<Rightarrow> bool" where
  "erase_at cur w i =
     list_ex (\<lambda>idx. 0 \<le> idx \<and> idx < int (length cur) \<and> rd cur idx = Some 0)
       [i - 1, i + 1, i - int w, i + int w]"

text \<open>One pass of the inner loop: it reads \<open>cur\<close> and writes \<open>nxt\<close>.\<close>

definition erode_sweep :: "nat list \<Rightarrow> nat list \<Rightarrow> nat \<Rightarrow> nat list" where
  "erode_sweep cur nxt w =
     fold (\<lambda>i nx. if rd cur (int i) = Some 1 \<and> erase_at cur w (int i)
                   then wr nx (int i) 0 else nx)
       [0..<length cur] nxt"

text \<open>
  The outer loop. After each pass \<^verbatim>\<open>curr.set(next)\<close> copies \<open>nxt\<close> into \<open>cur\<close>;
  \<open>nxt\<close> itself is kept and written further by the following pass.
\<close>

fun erode_passes :: "nat \<Rightarrow> nat \<Rightarrow> nat list \<Rightarrow> nat list \<Rightarrow> nat list" where
  "erode_passes 0 w cur nxt = cur"
| "erode_passes (Suc p) w cur nxt =
     (let nxt' = erode_sweep cur nxt w in erode_passes p w nxt' nxt')"

definition erode :: "nat list \<Rightarrow> nat \<Rightarrow> nat \<Rightarrow> int \<Rightarrow> nat list" where
  "erode msk w h passes =
     (if passes \<le> 0 then msk else erode_passes (nat passes) w msk msk)"

subsection \<open>dilate\<close>

definition grow_at :: "nat list \<Rightarrow> nat \<Rightarrow> int \<Rightarrow> bool" where
  "grow_at cur w i =
     list_ex (\<lambda>idx. 0 \<le> idx \<and> idx < int (length cur) \<and> rd cur idx = Some 1)
       [i - 1, i + 1, i - int w, i + int w]"

definition dilate_sweep :: "nat list \<Rightarrow> nat list \<Rightarrow> nat \<Rightarrow> nat list" where
  "dilate_sweep cur nxt w =
     fold (\<lambda>i nx. if rd cur (int i) = Some 0 \<and> grow_at cur w (int i)
                   then wr nx (int i) 1 else nx)
       [0..<length cur] nxt"

fun dilate_passes :: "nat \<Rightarrow> nat \<Rightarrow> nat list \<Rightarrow> nat list \<Rightarrow> nat list" where
  "dilate_passes 0 w cur nxt = cur"
| "dilate_passes (Suc p) w cur nxt =
     (let nxt' = dilate_sweep cur nxt w in dilate_passes p w nxt' nxt')"

definition dilate :: "nat list \<Rightarrow> nat \<Rightarrow> nat \<Rightarrow> int \<Rightarrow> nat list" where
  "dilate msk w h passes =
     (if passes \<le> 0 then msk else dilate_passes (nat passes) w msk msk)"

subsection \<open>fillInternalHoles\<close>

text \<open>
  \<^verbatim>\<open>if (mask[x] === 0) { stack.push(x); visited[x] = 1; }\<close> for one border index.
\<close>

definition seed :: "nat list \<Rightarrow> int \<Rightarrow> nat list \<times> int list \<Rightarrow> nat list \<times> int list" where
  "seed msk i s =
     (case s of (visited, stack) \<Rightarrow>
        if rd msk i = Some 0 then (wr visited i 1, i # stack) else s)"

text \<open>The two seeding loops, over the columns and then over the rows.\<close>

definition seed_edges :: "nat list \<Rightarrow> nat \<Rightarrow> nat \<Rightarrow> nat list \<times> int list" where
  "seed_edges msk w h =
     fold (\<lambda>y s. seed msk (int y * int w + int w - 1) (seed msk (int y * int w) s)) [0..<h]
       (fold (\<lambda>x s. seed msk ((int h - 1) * int w + int x) (seed msk (int x) s)) [0..<w]
          (replicate (w * h) 0, []))"

text \<open>
  \<^verbatim>\<open>if (n>=0 && n<mask.length && visited[n]===0 && mask[n]===0) {
     const nx = n%w; if (Math.abs(nx-x)<=1) { visited[n]=1; stack.push(n); } }\<close>
\<close>

definition hole_adm :: "nat list \<Rightarrow> nat \<Rightarrow> int \<Rightarrow> int \<Rightarrow> bool" where
  "hole_adm msk w i n =
     (0 \<le> n \<and> n < int (length msk) \<and> rd msk n = Some 0 \<and> \<bar>n mod int w - i mod int w\<bar> \<le> 1)"

text \<open>
  The source mutates \<open>mask\<close> in place and returns nothing; the model returns the mask
  after the call.
\<close>

definition fillInternalHoles :: "nat list \<Rightarrow> nat \<Rightarrow> nat \<Rightarrow> nat list" where
  "fillInternalHoles msk w h =
     (case seed_edges msk w h of
        (visited, stack) \<Rightarrow>
          let visited = fill_loop (hole_adm msk w) w visited stack
          in map (\<lambda>i. if msk ! i = 0 \<and> rd visited (int i) = Some 0 then 1 else msk ! i)
               [0..<length msk])"

section \<open>backgroundExtractor.ts: processSticker\<close>

datatype ExtractionMethod = flood_fill | luma_key | lab_difference

record ExtractionConfig =
  cfg_method :: ExtractionMethod
  cfg_tolerance :: real
  cfg_softness :: real
  cfg_erosion :: int
  cfg_smartFill :: bool
  cfg_borderWidth :: int
  cfg_outputSize :: int

text \<open>
  A \<^verbatim>\<open>ProcessedSprite\<close> is \<^verbatim>\<open>{ id, url, width, height, blob }\<close>. The id is a random UUID
  and is left out; \<open>url\<close> and \<open>blob\<close> encode the canvas, which \<open>sp_image\<close> stands for.
\<close>

record 'img ProcessedSprite =
  sp_width :: real
  sp_height :: real
  sp_image :: 'img

text \<open>\<^verbatim>\<open>throw new Error("No subject detected. Try 'Loose' tolerance?")\<close>\<close>

datatype error = NoSubjectDetected

text \<open>Steps 2 to 4: the mask, the optional hole filling, the erosion.\<close>

definition repairedMask :: "int list \<Rightarrow> nat \<Rightarrow> nat \<Rightarrow> ExtractionConfig \<Rightarrow> nat list" where
  "repairedMask data w h config =
     (let msk = (if cfg_method config = luma_key
                 then generateGlobalMask data w h (cfg_tolerance config)
                 else generateFloodFillMask data w h (cfg_tolerance config));
          msk = (if cfg_smartFill config then fillInternalHoles msk w h else msk);
          msk = (if cfg_erosion config > 0 then erode msk w h (cfg_erosion config) else msk)
      in msk)"

text \<open>
  Step 5: \<^verbatim>\<open>let minX=w, maxX=0, minY=h, maxY=0; let hasPixels = false;\<close> and the scan
  of the mask. The result is \<open>(minX, maxX, minY, maxY, hasPixels)\<close>.
\<close>

definition cropBounds :: "nat list \<Rightarrow> nat \<Rightarrow> nat \<Rightarrow> int \<times> int \<times> int \<times> int \<times> bool" where
  "cropBounds msk w h =
     fold (\<lambda>i (minX, maxX, minY, maxY, hasPixels).
             if msk ! i = 1 then
               let x = int i mod int w; y = int i div int w
               in (if x < minX then x else minX, if x > maxX then x else maxX,
                   if y < minY then y else minY, if y > maxY then y else maxY, True)
             else (minX, maxX, minY, maxY, hasPixels))
       [0..<length msk] (int w, 0, int h, 0, False)"

text \<open>Four consecutive channel stores at byte offset \<open>k\<close>.\<close>

definition put4 :: "int list \<Rightarrow> int \<Rightarrow> int \<Rightarrow> int \<Rightarrow> int \<Rightarrow> int \<Rightarrow> int list" where
  "put4 a k r g b al = wr (wr (wr (wr a k r) (k + 1) g) (k + 2) b) (k + 3) al"

text \<open>Step 7: the cropped mask placed in the centre of a \<open>finalSize\<close> square buffer.\<close>

definition borderBuf ::
  "nat list \<Rightarrow> nat \<Rightarrow> int \<Rightarrow> int \<Rightarrow> int \<Rightarrow> int \<Rightarrow> int \<Rightarrow> int \<Rightarrow> int \<Rightarrow> nat list" where
  "borderBuf msk w minX minY sw sh finalSize offX offY =
     fold (\<lambda>y buf.
        fold (\<lambda>x buf.
           let globalIdx = (minY + int y) * int w + (minX + int x)
           in if rd msk globalIdx = Some 1
              then wr buf ((offY + int y) * finalSize + (offX + int x)) 1 else buf)
          [0..<nat sw] buf)
       [0..<nat sh] (replicate (nat (finalSize * finalSize)) 0)"

text \<open>The white pixels drawn into a fresh (all zero) image data of the output size.\<close>

definition paintBorder :: "nat list \<Rightarrow> int \<Rightarrow> int list" where
  "paintBorder dilated finalSize =
     fold (\<lambda>i bDat. if dilated ! i = 1 then put4 bDat (int i * 4) 255 255 255 255 else bDat)
       [0..<length dilated] (replicate (nat (finalSize * finalSize * 4)) 0)"

text \<open>
  Step 8. A channel read outside the source data is \<^verbatim>\<open>undefined\<close>, which a
  \<^verbatim>\<open>Uint8ClampedArray\<close> stores as 0.
\<close>

definition channel :: "int list \<Rightarrow> int \<Rightarrow> int" where
  "channel data k = (case rd data k of Some c \<Rightarrow> c | None \<Rightarrow> 0)"

definition composite ::
  "int list \<Rightarrow> nat list \<Rightarrow> nat \<Rightarrow> int \<Rightarrow> int \<Rightarrow> int \<Rightarrow> int \<Rightarrow> int \<Rightarrow> int \<Rightarrow> int \<Rightarrow> int list
     \<Rightarrow> int list" where
  "composite data msk w minX minY sw sh finalSize offX offY canvas =
     fold (\<lambda>y out.
        fold (\<lambda>x out.
           let srcIdx = (minY + int y) * int w + (minX + int x);
               dstIdx = ((offY + int y) * finalSize + (offX + int x)) * 4
           in if rd msk srcIdx = Some 1
              then put4 out dstIdx (channel data (srcIdx * 4)) (channel data (srcIdx * 4 + 1))
                     (channel data (srcIdx * 4 + 2)) 255
              else out)
          [0..<nat sw] out)
       [0..<nat sh] canvas"

text \<open>
  The operation on the decoded image \<open>(data, w, h)\<close>: loading and decoding the image and
  encoding the canvas belong to the browser. The result is the thrown error or the sprite.
\<close>

definition processSticker ::
  "int list \<Rightarrow> nat \<Rightarrow> nat \<Rightarrow> ExtractionConfig \<Rightarrow> error + (int list) ProcessedSprite" where
  "processSticker data w h config =
     (let msk = repairedMask data w h config
      in case cropBounds msk w h of
        (minX, maxX, minY, maxY, hasPixels) \<Rightarrow>
          if \<not> hasPixels then Inl NoSubjectDetected
          else
            let sw = maxX - minX + 1;
                sh = maxY - minY + 1;
                maxDim = max sw sh;
                padding = max (cfg_borderWidth config + 20) 40;
                finalSize = maxDim + padding * 2;
                offX = (finalSize - sw) div 2;
                offY = (finalSize - sh) div 2;
                canvas = (if cfg_borderWidth config > 0
                          then paintBorder
                                 (dilate (borderBuf msk w minX minY sw sh finalSize offX offY)
                                    (nat finalSize) (nat finalSize) (cfg_borderWidth config))
                                 finalSize
                          else replicate (nat (finalSize * finalSize * 4)) 0);
                out = composite data msk w minX minY sw sh finalSize offX offY canvas
            in Inr \<lparr>sp_width = of_int finalSize, sp_height = of_int finalSize, sp_image = out\<rparr>)"

section \<open>slicingUtil.ts\<close>

definition colorDist :: "real \<Rightarrow> real \<Rightarrow> real \<Rightarrow> real \<Rightarrow> real \<Rightarrow> real \<Rightarrow> real" where
  "colorDist r1 g1 b1 r2 g2 b2 = sqrt ((r1 - r2)\<^sup>2 + (g1 - g2)\<^sup>2 + (b1 - b2)\<^sup>2)"

record Rect =
  rect_x :: real
  rect_y :: real
  rect_w :: real
  rect_h :: real

datatype Mode = smart | grid

record CustomGrid =
  xLines :: "real list"
  yLines :: "real list"

text \<open>The fields of \<^verbatim>\<open>ProcessorOptions\<close> that the two operations read.\<close>

record ProcessorOptions =
  opt_mode :: Mode
  opt_tolerance :: real
  opt_rows :: int
  opt_cols :: int
  opt_trim :: "real option"
  opt_customGrid :: "CustomGrid option"

text \<open>\<^verbatim>\<open>Math.round\<close>: the nearest integer, a tie going up.\<close>

definition js_round :: "real \<Rightarrow> int" where
  "js_round v = \<lfloor>v + 1 / 2\<rfloor>"

subsection \<open>detectSegments, grid mode\<close>

text \<open>
  \<^verbatim>\<open>const xs = [0, ...xLines.map(p => p * width), width].sort((a,b) => a-b);\<close>
  and one Rect per pair of adjacent lines, rows outside, columns inside. Numbers are
  reals here: the product \<open>p * width\<close> and the difference \<open>x2 - x1\<close> are exact, where the
  code computes them in double precision. The two agree wherever the exact values are
  doubles, as they are for lines that are multiples of a power of a half on buffers of
  ordinary size; the statements about explicit lines below use such lines, or lines whose
  projections are whole numbers.
\<close>

definition customGridRects :: "nat \<Rightarrow> nat \<Rightarrow> CustomGrid \<Rightarrow> Rect list" where
  "customGridRects width height g =
     (let xs = sort ([0] @ map (\<lambda>p. p * real width) (xLines g) @ [real width]);
          ys = sort ([0] @ map (\<lambda>p. p * real height) (yLines g) @ [real height])
      in concat (map (\<lambda>r. map (\<lambda>c.
           let x1 = xs ! c; x2 = xs ! (c + 1); y1 = ys ! r; y2 = ys ! (r + 1)
           in \<lparr>rect_x = of_int (js_round x1), rect_y = of_int (js_round y1),
               rect_w = of_int (js_round (x2 - x1)), rect_h = of_int (js_round (y2 - y1))\<rparr>)
           [0..<length xs - 1]) [0..<length ys - 1]))"

definition evenGridRects :: "nat \<Rightarrow> nat \<Rightarrow> int \<Rightarrow> int \<Rightarrow> Rect list" where
  "evenGridRects width height rows0 cols0 =
     (let rows = max 1 rows0; cols = max 1 cols0;
          cellW = real width / of_int cols; cellH = real height / of_int rows
      in concat (map (\<lambda>r. map (\<lambda>c.
           \<lparr>rect_x = real c * cellW, rect_y = real r * cellH, rect_w = cellW, rect_h = cellH\<rparr>)
           [0..<nat cols]) [0..<nat rows]))"

subsection \<open>detectSegments, smart mode\<close>

text \<open>
  \<^verbatim>\<open>if (colorDist(r,g,b, bgR,bgG,bgB) > tolerance * 3) isContent[i] = 1;\<close>
  A read outside \<open>data\<close> makes the distance \<^verbatim>\<open>NaN\<close>, and the comparison false.
\<close>

definition content_at :: "int list \<Rightarrow> real \<Rightarrow> int \<Rightarrow> bool" where
  "content_at data tol i =
     (case (rd data (i * 4), rd data (i * 4 + 1), rd data (i * 4 + 2),
            rd data 0, rd data 1, rd data 2) of
        (Some r, Some g, Some b, Some bgR, Some bgG, Some bgB) \<Rightarrow>
          colorDist (of_int r) (of_int g) (of_int b) (of_int bgR) (of_int bgG) (of_int bgB)
            > tol * 3
      | _ \<Rightarrow> False)"

definition isContentMap :: "int list \<Rightarrow> nat \<Rightarrow> nat \<Rightarrow> real \<Rightarrow> nat list" where
  "isContentMap data width height tol =
     map (\<lambda>i. if content_at data tol (int i) then 1 else 0) [0..<width * height]"

text \<open>
  \<^verbatim>\<open>if (n >= 0 && n < width*height && visited[n] === 0 && isContent[n] === 1) {
     const nx = n%width; if (Math.abs(nx - x) <= 1) { visited[n] = 1; stack.push(n); } }\<close>
\<close>

definition comp_adm :: "nat list \<Rightarrow> nat \<Rightarrow> nat \<Rightarrow> int \<Rightarrow> int \<Rightarrow> bool" where
  "comp_adm isContent width height i n =
     (0 \<le> n \<and> n < int (width * height) \<and> rd isContent n = Some 1 \<and>
      \<bar>n mod int width - i mod int width\<bar> \<le> 1)"

text \<open>
  The flood fill of one component; \<open>box\<close> is \<open>(minX, maxX, minY, maxY, count)\<close>.
\<close>

function comp_loop ::
  "nat list \<Rightarrow> nat \<Rightarrow> nat \<Rightarrow> nat list \<Rightarrow> int list \<Rightarrow> int \<times> int \<times> int \<times> int \<times> nat
     \<Rightarrow> nat list \<times> (int \<times> int \<times> int \<times> int \<times> nat)" where
  "comp_loop isContent width height visited [] box = (visited, box)"
| "comp_loop isContent width height visited (idx # stack) box =
     (case box of (minX, maxX, minY, maxY, count) \<Rightarrow>
        let x = idx mod int width; y = idx div int width;
            box' = (if x < minX then x else minX, if x > maxX then x else maxX,
                    if y < minY then y else minY, if y > maxY then y else maxY, count + 1)
        in case expand (comp_adm isContent width height) width idx (visited, stack) of
             (visited', stack') \<Rightarrow> comp_loop isContent width height visited' stack' box')"
  by pat_completeness auto
termination
  apply (relation "measure (\<lambda>(isContent, width, height, visited, stack, box).
                      fill_measure (visited, stack))")
   apply simp
  apply (frule expand_measure_pair)
  apply (drule sym)
  apply (simp add: fill_measure_def)
  done

definition minArea :: nat where
  "minArea = 400"

text \<open>\<^verbatim>\<open>const pad = options.trim || 10;\<close> and the padded, clamped Rect.\<close>

definition padOf :: "ProcessorOptions \<Rightarrow> real" where
  "padOf options = (case opt_trim options of None \<Rightarrow> 10 | Some t \<Rightarrow> if t = 0 then 10 else t)"

definition paddedRect :: "nat \<Rightarrow> nat \<Rightarrow> real \<Rightarrow> int \<Rightarrow> int \<Rightarrow> int \<Rightarrow> int \<Rightarrow> Rect" where
  "paddedRect width height pad minX maxX minY maxY =
     \<lparr>rect_x = max 0 (of_int minX - pad),
      rect_y = max 0 (of_int minY - pad),
      rect_w = min (real width) (of_int maxX + pad) - max 0 (of_int minX - pad),
      rect_h = min (real height) (of_int maxY + pad) - max 0 (of_int minY - pad)\<rparr>"

text \<open>\<^verbatim>\<open>const tolerance = options.tolerance || 20;\<close>\<close>

definition toleranceOf :: "ProcessorOptions \<Rightarrow> real" where
  "toleranceOf options = (if opt_tolerance options = 0 then 20 else opt_tolerance options)"

text \<open>The raster scan that starts a component at every unvisited content pixel.\<close>

definition smartRects :: "int list \<Rightarrow> nat \<Rightarrow> nat \<Rightarrow> ProcessorOptions \<Rightarrow> Rect list" where
  "smartRects data width height options =
     (let isContent = isContentMap data width height (toleranceOf options)
      in snd (fold (\<lambda>i (visited, rects).
           if rd isContent (int i) = Some 1 \<and> rd visited (int i) = Some 0 then
             case comp_loop isContent width height (wr visited (int i) 1) [int i]
                    (int i mod int width, int i mod int width,
                     int i div int width, int i div int width, 0) of
               (visited', minX, maxX, minY, maxY, count) \<Rightarrow>
                 if count > minArea
                 then (visited', rects @ [paddedRect width height (padOf options) minX maxX minY maxY])
                 else (visited', rects)
           else (visited, rects))
         [0..<width * height] (replicate (width * height) 0, [])))"

text \<open>
  \<open>detectSegments\<close> on the decoded image. The mode is \<open>smart\<close> or \<open>grid\<close> by its type, so
  the closing \<^verbatim>\<open>return []\<close> of the source is never reached.
\<close>

definition detectSegments :: "int list \<Rightarrow> nat \<Rightarrow> nat \<Rightarrow> ProcessorOptions \<Rightarrow> Rect list" where
  "detectSegments data width height options =
     (if opt_mode options = grid then
        (case opt_customGrid options of
           Some g \<Rightarrow> customGridRects width height g
         | None \<Rightarrow> evenGridRects width height (opt_rows options) (opt_cols options))
      else smartRects data width height options)"

subsection \<open>sliceImage\<close>

text \<open>
  The loop over the detected Rects. What the browser decides is a parameter:
  \<open>ctxOk r\<close> tells whether \<^verbatim>\<open>getContext('2d')\<close> yields a context for the canvas of Rect
  \<open>r\<close>, \<open>blobOk r\<close> whether \<^verbatim>\<open>toBlob\<close> yields a blob. The state is the list of sprites and
  the list of the crop canvases allocated so far, each with the width and height it was
  given. The image of a sprite is the Rect of the source drawn over black.
\<close>

definition slice_step ::
  "(Rect \<Rightarrow> bool) \<Rightarrow> (Rect \<Rightarrow> bool) \<Rightarrow> Rect
     \<Rightarrow> Rect ProcessedSprite list \<times> (real \<times> real) list
     \<Rightarrow> Rect ProcessedSprite list \<times> (real \<times> real) list" where
  "slice_step ctxOk blobOk rect s =
     (case s of (sprites, canvases) \<Rightarrow>
        if rect_w rect < 1 \<or> rect_h rect < 1 then s
        else
          let canvases = canvases @ [(rect_w rect, rect_h rect)]
          in if \<not> ctxOk rect then (sprites, canvases)
             else if blobOk rect
               then (sprites @ [\<lparr>sp_width = rect_w rect, sp_height = rect_h rect,
                                 sp_image = rect\<rparr>], canvases)
               else (sprites, canvases))"

definition sliceRects ::
  "(Rect \<Rightarrow> bool) \<Rightarrow> (Rect \<Rightarrow> bool) \<Rightarrow> Rect list
     \<Rightarrow> Rect ProcessedSprite list \<times> (real \<times> real) list" where
  "sliceRects ctxOk blobOk rects = fold (slice_step ctxOk blobOk) rects ([], [])"

definition sliceImage ::
  "(Rect \<Rightarrow> bool) \<Rightarrow> (Rect \<Rightarrow> bool) \<Rightarrow> int list \<Rightarrow> nat \<Rightarrow> nat \<Rightarrow> ProcessorOptions
     \<Rightarrow> Rect ProcessedSprite list" where
  "sliceImage ctxOk blobOk data width height options =
     fst (sliceRects ctxOk blobOk (detectSegments data width height options))"

section \<open>Notions of the specification\<close>

subsection \<open>Erosion over the 4-neighbourhood of the grid\<close>

text \<open>
  The cells directly left, right, above and below cell \<open>i\<close> of a grid of width \<open>w\<close>
  holding \<open>len\<close> cells; a cell of another row is never a horizontal neighbour. One pass
  clears the foreground cells that have a background cell among them.
\<close>

definition grid4 :: "nat \<Rightarrow> nat \<Rightarrow> nat \<Rightarrow> nat list" where
  "grid4 w len i =
     (if 0 < i mod w then [i - 1] else []) @
     (if i mod w + 1 < w \<and> i + 1 < len then [i + 1] else []) @
     (if w \<le> i then [i - w] else []) @
     (if i + w < len then [i + w] else [])"

definition erode_claim_sweep :: "nat list \<Rightarrow> nat \<Rightarrow> nat list" where
  "erode_claim_sweep m w =
     map (\<lambda>i. if m ! i = 1 \<and> list_ex (\<lambda>n. m ! n = 0) (grid4 w (length m) i) then 0 else m ! i)
       [0..<length m]"

definition erode_claim :: "nat list \<Rightarrow> nat \<Rightarrow> nat \<Rightarrow> int \<Rightarrow> nat list" where
  "erode_claim msk w h passes =
     (if passes \<le> 0 then msk else ((\<lambda>m. erode_claim_sweep m w) ^^ nat passes) msk)"

text \<open>
  A 3 x 5 image, black (B) and white (W), rows \<open>BWB\<close>, \<open>WWB\<close>, \<open>WWB\<close>, \<open>WWB\<close>, \<open>BWB\<close>;
  its flood-fill mask at tolerance 10, which is the image with 1 for white; and a
  configuration of \<open>processSticker\<close> with the flood fill at tolerance 10, one erosion pass,
  no border, and the hole filling switched by \<open>fill\<close>.
\<close>

definition notch_img :: "int list" where
  "notch_img = [0, 0, 0, 255,        255, 255, 255, 255,  0, 0, 0, 255,
                255, 255, 255, 255,  255, 255, 255, 255,  0, 0, 0, 255,
                255, 255, 255, 255,  255, 255, 255, 255,  0, 0, 0, 255,
                255, 255, 255, 255,  255, 255, 255, 255,  0, 0, 0, 255,
                0, 0, 0, 255,        255, 255, 255, 255,  0, 0, 0, 255]"

definition notch_mask :: "nat list" where
  "notch_mask = [0, 1, 0,  1, 1, 0,  1, 1, 0,  1, 1, 0,  0, 1, 0]"

definition erosion_config :: "bool \<Rightarrow> ExtractionConfig" where
  "erosion_config fill = \<lparr>cfg_method = flood_fill, cfg_tolerance = 10, cfg_softness = 0,
     cfg_erosion = 1, cfg_smartFill = fill, cfg_borderWidth = 0, cfg_outputSize = 1024\<rparr>"

subsection \<open>Degenerate Rects\<close>

definition degenerate :: "Rect \<Rightarrow> bool" where
  "degenerate r = (rect_w r < 1 \<or> rect_h r < 1)"

subsection \<open>Cells reached by a stack loop\<close>

text \<open>
  The cells reached from a set \<open>S\<close> of start cells by steps to one of the four index
  neighbours \<open>i - 1\<close>, \<open>i + 1\<close>, \<open>i - w\<close>, \<open>i + w\<close> that the test \<open>adm\<close> admits.
\<close>

inductive_set reach :: "(int \<Rightarrow> int \<Rightarrow> bool) \<Rightarrow> nat \<Rightarrow> int set \<Rightarrow> int set"
  for adm :: "int \<Rightarrow> int \<Rightarrow> bool" and w :: nat and S :: "int set" where
  start: "i \<in> S \<Longrightarrow> i \<in> reach adm w S"
| step: "i \<in> reach adm w S \<Longrightarrow> n \<in> set [i - 1, i + 1, i - int w, i + int w] \<Longrightarrow> adm i n
         \<Longrightarrow> n \<in> reach adm w S"

text \<open>The test of a loop round: admitted by the caller and not yet marked.\<close>

definition radm :: "(int \<Rightarrow> int \<Rightarrow> bool) \<Rightarrow> nat list \<Rightarrow> int \<Rightarrow> int \<Rightarrow> bool" where
  "radm adm v i n = (adm i n \<and> rd v n = Some 0)"

text \<open>The cells that the round popping \<open>i\<close> pushes.\<close>

definition pushed :: "(int \<Rightarrow> int \<Rightarrow> bool) \<Rightarrow> nat \<Rightarrow> int \<Rightarrow> nat list \<Rightarrow> int set" where
  "pushed adm w i v = {n \<in> set [i - 1, i + 1, i - int w, i + int w]. adm i n \<and> rd v n = Some 0}"

subsection \<open>The background of the flood-fill mask\<close>

text \<open>
  The cells reached from the four corner indices by index steps that pass the test of
  \<open>generateFloodFillMask\<close>: inside the buffer, column change at most 1, colour within the
  threshold of the colour of pixel 0.
\<close>

definition flood_bg :: "int list \<Rightarrow> nat \<Rightarrow> nat \<Rightarrow> real \<Rightarrow> int set" where
  "flood_bg data w h tol = reach (flood_adm data w h tol) w (set (corner_seeds w h))"

text \<open>The \<open>visited\<close> array of \<open>generateFloodFillMask\<close> when its loop has ended.\<close>

definition flood_visited :: "int list \<Rightarrow> nat \<Rightarrow> nat \<Rightarrow> real \<Rightarrow> nat list" where
  "flood_visited data w h tol =
     fill_loop (flood_adm data w h tol) w
       (fold (\<lambda>i v. wr v i 1) (corner_seeds w h) (replicate (w * h) 0)) (rev (corner_seeds w h))"

text \<open>
  A 3 x 3 image whose corners have four different colours, with a fifth in the centre.
\<close>

definition corner_img :: "int list" where
  "corner_img = [10, 10, 10, 255,  0, 0, 0, 255,    200, 0, 0, 255,
                 0, 0, 0, 255,     50, 60, 70, 255, 0, 0, 0, 255,
                 0, 200, 0, 255,   0, 0, 0, 255,    0, 0, 200, 255]"

subsection \<open>The 4-connected flood fill of the grid\<close>

text \<open>
  Two cells of the \<open>w\<close> x \<open>h\<close> grid are neighbours when they lie in one row in adjacent
  columns, or in one column in adjacent rows (left, right, up, down; no diagonal move).
  Cell \<open>i\<close> lies in column \<open>i mod w\<close> of row \<open>i div w\<close>.
\<close>

definition grid_adj :: "nat \<Rightarrow> nat \<Rightarrow> int \<Rightarrow> int \<Rightarrow> bool" where
  "grid_adj w h i n =
     (0 \<le> i \<and> i < int (w * h) \<and> 0 \<le> n \<and> n < int (w * h) \<and>
      ((n div int w = i div int w \<and> \<bar>n mod int w - i mod int w\<bar> = 1) \<or>
       (n mod int w = i mod int w \<and> \<bar>n div int w - i div int w\<bar> = 1)))"

text \<open>
  The flood fill of the specification: seeded at the four corner positions, it expands to
  grid neighbours whose colour is within the threshold of the colour of pixel 0.
\<close>

inductive_set flood4 :: "int list \<Rightarrow> nat \<Rightarrow> nat \<Rightarrow> real \<Rightarrow> int set"
  for data :: "int list" and w :: nat and h :: nat and tol :: real where
  corner: "c \<in> set (corner_seeds w h) \<Longrightarrow> c \<in> flood4 data w h tol"
| nbr: "i \<in> flood4 data w h tol \<Longrightarrow> grid_adj w h i n \<Longrightarrow> near_bg data tol n
        \<Longrightarrow> n \<in> flood4 data w h tol"

text \<open>
  A 2 x 5 image, black (B) and white (W), rows \<open>BB\<close>, \<open>WB\<close>, \<open>BW\<close>, \<open>WB\<close>, \<open>BB\<close>. The black
  pixel at column 0 of row 2 (index 4) has only white grid neighbours.
\<close>

definition leak_img :: "int list" where
  "leak_img = [0, 0, 0, 255,        0, 0, 0, 255,
               255, 255, 255, 255,  0, 0, 0, 255,
               0, 0, 0, 255,        255, 255, 255, 255,
               255, 255, 255, 255,  0, 0, 0, 255,
               0, 0, 0, 255,        0, 0, 0, 255]"

subsection \<open>The outer background of a mask\<close>

text \<open>
  The border indices that \<open>fillInternalHoles\<close> inspects, in the order of its two seeding
  loops; the seeds are the border cells holding 0; the outer background is what the
  loop reaches from them through cells holding 0.
\<close>

definition border_cells :: "nat \<Rightarrow> nat \<Rightarrow> int list" where
  "border_cells w h =
     concat (map (\<lambda>x. [int x, (int h - 1) * int w + int x]) [0..<w]) @
     concat (map (\<lambda>y. [int y * int w, int y * int w + int w - 1]) [0..<h])"

definition hole_seeds :: "nat list \<Rightarrow> nat \<Rightarrow> nat \<Rightarrow> int set" where
  "hole_seeds msk w h = {n \<in> set (border_cells w h). rd msk n = Some 0}"

definition outer_bg :: "nat list \<Rightarrow> nat \<Rightarrow> nat \<Rightarrow> int set" where
  "outer_bg msk w h = reach (hole_adm msk w) w (hole_seeds msk w h)"

text \<open>A 5 x 5 mask: a ring of foreground around one background cell.\<close>

definition ring_mask :: "nat list" where
  "ring_mask = [0, 0, 0, 0, 0,
                0, 1, 1, 1, 0,
                0, 1, 0, 1, 0,
                0, 1, 1, 1, 0,
                0, 0, 0, 0, 0]"

subsection \<open>The foreground of a mask and its bounding box\<close>

text \<open>
  The foreground cells of a mask, the columns and the rows they lie in, and the width and
  height of the tight bounding box around them.
\<close>

definition fgCells :: "nat list \<Rightarrow> nat set" where
  "fgCells msk = set (filter (\<lambda>i. msk ! i = 1) [0..<length msk])"

definition fgCols :: "nat list \<Rightarrow> nat \<Rightarrow> int set" where
  "fgCols msk w = (\<lambda>i. int i mod int w) ` fgCells msk"

definition fgRows :: "nat list \<Rightarrow> nat \<Rightarrow> int set" where
  "fgRows msk w = (\<lambda>i. int i div int w) ` fgCells msk"

definition boxW :: "nat list \<Rightarrow> nat \<Rightarrow> int" where
  "boxW msk w = Max (fgCols msk w) - Min (fgCols msk w) + 1"

definition boxH :: "nat list \<Rightarrow> nat \<Rightarrow> int" where
  "boxH msk w = Max (fgRows msk w) - Min (fgRows msk w) + 1"

text \<open>The side of the output square for a border width \<open>bw\<close>.\<close>

definition finalSizeOf :: "nat list \<Rightarrow> nat \<Rightarrow> int \<Rightarrow> int" where
  "finalSizeOf msk w bw = max (boxW msk w) (boxH msk w) + 2 * max (bw + 20) 40"

text \<open>
  A buffer of \<open>w * h\<close> pixels whose colour channels all equal those of pixel 0.
\<close>

definition uniform :: "int list \<Rightarrow> nat \<Rightarrow> nat \<Rightarrow> bool" where
  "uniform data w h =
     (length data = 4 * (w * h) \<and>
      list_all (\<lambda>n. list_all (\<lambda>k. data ! (4 * n + k) = data ! k) [0..<3]) [0..<w * h])"

text \<open>A uniform 2 x 2 buffer, and a configuration: flood fill, no repair, no border.\<close>

definition grey2x2 :: "int list" where
  "grey2x2 = [7, 7, 7, 255,  7, 7, 7, 255,  7, 7, 7, 255,  7, 7, 7, 255]"

definition plain_config :: ExtractionConfig where
  "plain_config = \<lparr>cfg_method = flood_fill, cfg_tolerance = 10, cfg_softness = 0,
     cfg_erosion = 0, cfg_smartFill = False, cfg_borderWidth = 0, cfg_outputSize = 1024\<rparr>"

subsection \<open>Names for parts of processSticker\<close>

text \<open>
  The body of the scan of step 5, the foreground cells below an index, the canvas before
  the subject is drawn (step 7), the body of the drawing loop of step 8 for the cell
  \<open>q = (y, x)\<close> of the box, and the byte offset it writes to.
\<close>

definition bounds_step ::
  "nat list \<Rightarrow> nat \<Rightarrow> nat \<Rightarrow> int \<times> int \<times> int \<times> int \<times> bool \<Rightarrow> int \<times> int \<times> int \<times> int \<times> bool" where
  "bounds_step msk w = (\<lambda>i (minX, maxX, minY, maxY, hasPixels).
             if msk ! i = 1 then
               let x = int i mod int w; y = int i div int w
               in (if x < minX then x else minX, if x > maxX then x else maxX,
                   if y < minY then y else minY, if y > maxY then y else maxY, True)
             else (minX, maxX, minY, maxY, hasPixels))"

definition fgBelow :: "nat list \<Rightarrow> nat \<Rightarrow> nat set" where
  "fgBelow msk k = {i. i < k \<and> msk ! i = 1}"

definition canvasOf :: "nat list \<Rightarrow> nat \<Rightarrow> int \<Rightarrow> int list" where
  "canvasOf msk w bw =
     (let sw = boxW msk w; sh = boxH msk w; finalSize = finalSizeOf msk w bw;
          offX = (finalSize - sw) div 2; offY = (finalSize - sh) div 2
      in if bw > 0
         then paintBorder (dilate (borderBuf msk w (Min (fgCols msk w)) (Min (fgRows msk w))
                                     sw sh finalSize offX offY)
                             (nat finalSize) (nat finalSize) bw) finalSize
         else replicate (nat (finalSize * finalSize * 4)) 0)"

definition cwrite ::
  "int list \<Rightarrow> nat list \<Rightarrow> nat \<Rightarrow> int \<Rightarrow> int \<Rightarrow> int \<Rightarrow> int \<Rightarrow> int \<Rightarrow> nat \<times> nat \<Rightarrow> int list \<Rightarrow> int list" where
  "cwrite data msk w minX minY finalSize offX offY q out =
     (let srcIdx = (minY + int (fst q)) * int w + (minX + int (snd q));
          dstIdx = ((offY + int (fst q)) * finalSize + (offX + int (snd q))) * 4
      in if rd msk srcIdx = Some 1
         then put4 out dstIdx (channel data (srcIdx * 4)) (channel data (srcIdx * 4 + 1))
                (channel data (srcIdx * 4 + 2)) 255
         else out)"

definition dstOf :: "int \<Rightarrow> int \<Rightarrow> int \<Rightarrow> nat \<times> nat \<Rightarrow> int" where
  "dstOf fs offX offY q = ((offY + int (fst q)) * fs + (offX + int (snd q))) * 4"

subsection \<open>Tiling by Rects\<close>

text \<open>
  Pixel \<open>(px, py)\<close> lies in a Rect when the Rect's half-open ranges contain it; the area
  of a Rect; the options of grid mode with explicit lines.
\<close>

definition inRect :: "Rect \<Rightarrow> nat \<Rightarrow> nat \<Rightarrow> bool" where
  "inRect r px py =
     (rect_x r \<le> real px \<and> real px < rect_x r + rect_w r \<and>
      rect_y r \<le> real py \<and> real py < rect_y r + rect_h r)"

definition rectArea :: "Rect \<Rightarrow> real" where
  "rectArea r = rect_w r * rect_h r"

definition grid_options :: "real list \<Rightarrow> real list \<Rightarrow> ProcessorOptions" where
  "grid_options xl yl =
     \<lparr>opt_mode = grid, opt_tolerance = 20, opt_rows = 1, opt_cols = 1, opt_trim = None,
      opt_customGrid = Some \<lparr>xLines = xl, yLines = yl\<rparr>\<rparr>"

text \<open>
  The sorted cut positions \<^verbatim>\<open>[0, ...lines.map(p => p * n), n].sort(...)\<close> of one axis of
  length \<open>n\<close>; and normalized lines in \<open>[0, 1]\<close> whose projections are whole pixels.
\<close>

definition cuts :: "nat \<Rightarrow> real list \<Rightarrow> real list" where
  "cuts n ps = sort ([0] @ map (\<lambda>p. p * real n) ps @ [real n])"

definition whole_lines :: "nat \<Rightarrow> real list \<Rightarrow> bool" where
  "whole_lines n ps = (\<forall>p\<in>set ps. 0 \<le> p \<and> p \<le> 1 \<and> p * real n \<in> \<int>)"

subsection \<open>The raster scan of smart mode\<close>

text \<open>
  The body of the raster scan of \<open>smartRects\<close>, as a function of its own, with the area
  threshold as the parameter \<open>m\<close>; the source has the constant \<open>minArea\<close> there.
\<close>

definition scan_step ::
  "nat \<Rightarrow> nat list \<Rightarrow> nat \<Rightarrow> nat \<Rightarrow> real \<Rightarrow> nat \<Rightarrow> nat list \<times> Rect list
     \<Rightarrow> nat list \<times> Rect list" where
  "scan_step m isContent width height pad =
     (\<lambda>i (visited, rects).
           if rd isContent (int i) = Some 1 \<and> rd visited (int i) = Some 0 then
             case comp_loop isContent width height (wr visited (int i) 1) [int i]
                    (int i mod int width, int i mod int width,
                     int i div int width, int i div int width, 0) of
               (visited', minX, maxX, minY, maxY, count) \<Rightarrow>
                 if count > m
                 then (visited', rects @ [paddedRect width height pad minX maxX minY maxY])
                 else (visited', rects)
           else (visited, rects))"

text \<open>
  The update of \<open>(minX, maxX, minY, maxY, count)\<close> by one popped cell, as \<open>comp_loop\<close> has
  it; and the cells whose column lies in \<open>[a, b]\<close> and whose row lies in \<open>[c, d]\<close>.
\<close>

definition grow_box :: "nat \<Rightarrow> int \<Rightarrow> int \<times> int \<times> int \<times> int \<times> nat \<Rightarrow> int \<times> int \<times> int \<times> int \<times> nat" where
  "grow_box width idx box =
     (case box of (minX, maxX, minY, maxY, count) \<Rightarrow>
        let x = idx mod int width; y = idx div int width
        in (if x < minX then x else minX, if x > maxX then x else maxX,
            if y < minY then y else minY, if y > maxY then y else maxY, count + 1))"

definition in_box :: "int \<Rightarrow> int \<Rightarrow> int \<Rightarrow> int \<Rightarrow> nat \<Rightarrow> int \<Rightarrow> bool" where
  "in_box a b c d width j =
     (a \<le> j mod int width \<and> j mod int width \<le> b \<and> c \<le> j div int width \<and> j div int width \<le> d)"

subsection \<open>The 100 x 100 scenario\<close>

text \<open>
  The pixels of the 20 x 20 square with the corners (40, 40) and (60, 60) of a 100 x 100
  buffer, by index; the RGBA buffer that is opaque white on the square and opaque black
  elsewhere; and options that select smart mode with a given tolerance.
\<close>

definition in_square :: "nat \<Rightarrow> bool" where
  "in_square i = (40 \<le> i mod 100 \<and> i mod 100 < 60 \<and> 40 \<le> i div 100 \<and> i div 100 < 60)"

definition square_img :: "int list" where
  "square_img =
     concat (map (\<lambda>i. if in_square i then [255, 255, 255, 255] else [0, 0, 0, 255]) [0..<10000])"

definition smart_options :: "real \<Rightarrow> ProcessorOptions" where
  "smart_options tol =
     \<lparr>opt_mode = smart, opt_tolerance = tol, opt_rows = 1, opt_cols = 1, opt_trim = None,
      opt_customGrid = None\<rparr>"

text \<open>
  The mask whose foreground is exactly the square; and the \<open>visited\<close> array of the raster
  scan at the moment it starts the component at the first pixel of the square, index 4040.
\<close>

definition square_map :: "nat list" where
  "square_map = map (\<lambda>n. if in_square n then 1 else 0) [0..<10000]"

definition square_seeded :: "nat list" where
  "square_seeded = wr (replicate 10000 0) 4040 1"

chapter \<open>Properties\<close>

section \<open>erode\<close>

lemma erode_no_passes: "passes \<le> 0 \<Longrightarrow> erode msk w h passes = msk"
  by (simp add: erode_def)

text \<open>
  C5. One erosion pass is claimed to clear a foreground pixel exactly when a cell directly
  above, below, left or right of it in the grid is background, never because of a cell of
  another row reached across a row boundary. \<open>erode\<close> has no wrap guard, and
  \<open>processSticker\<close> hands it masks on which that shows. The flood-fill mask of \<open>notch_img\<close>
  is \<open>notch_mask\<close>, rows \<open>0 1 0\<close>, \<open>1 1 0\<close>, \<open>1 1 0\<close>, \<open>1 1 0\<close>, \<open>0 1 0\<close>, and hole
  filling leaves it as it is. The pixel at column 0 of row 2 (index 6) has the grid
  neighbours 7, 3 and 9, all foreground, and the claimed pass keeps it. \<open>erode\<close> clears
  it, because index \<open>6 - 1 = 5\<close>, the last cell of row 1, is background: the eroded mask is
  empty and \<open>processSticker\<close> reports that there is no subject, with and without hole
  filling.
\<close>

theorem erode_crosses_row_boundary:
  "generateFloodFillMask notch_img 3 5 10 = notch_mask \<and>
   fillInternalHoles notch_mask 3 5 = notch_mask \<and>
   erode notch_mask 3 5 1 = [0, 0, 0,  0, 0, 0,  0, 0, 0,  0, 0, 0,  0, 0, 0] \<and>
   erode_claim notch_mask 3 5 1 = [0, 0, 0,  0, 0, 0,  1, 0, 0,  0, 0, 0,  0, 0, 0] \<and>
   grid4 3 15 6 = [7, 3, 9] \<and>
   map (\<lambda>n. notch_mask ! n) (grid4 3 15 6) = [1, 1, 1] \<and>
   rd notch_mask (6 - 1) = Some 0 \<and>
   repairedMask notch_img 3 5 (erosion_config False) = replicate 15 0 \<and>
   repairedMask notch_img 3 5 (erosion_config True) = replicate 15 0 \<and>
   processSticker notch_img 3 5 (erosion_config False) = Inl NoSubjectDetected \<and>
   processSticker notch_img 3 5 (erosion_config True) = Inl NoSubjectDetected"
  by code_simp

section \<open>detectSegments: the tolerance default\<close>

text \<open>
  C10. With tolerance 0 \<open>detectSegments\<close> returns what it returns with tolerance 20 on
  the same image and options: the falsy 0 is replaced by the default 20, so the content
  map is the one of tolerance 20 and not an exact colour match.
\<close>

theorem detectSegments_tolerance_zero_is_default:
  "detectSegments data width height (options\<lparr>opt_tolerance := 0\<rparr>) =
     detectSegments data width height (options\<lparr>opt_tolerance := 20\<rparr>) \<and>
   toleranceOf (options\<lparr>opt_tolerance := 0\<rparr>) = 20 \<and>
   isContentMap data width height (toleranceOf (options\<lparr>opt_tolerance := 0\<rparr>)) =
     isContentMap data width height 20"
proof -
  have p: "padOf (options\<lparr>opt_tolerance := 0\<rparr>) = padOf (options\<lparr>opt_tolerance := 20\<rparr>)"
    by (simp add: padOf_def)
  have t: "toleranceOf (options\<lparr>opt_tolerance := 0\<rparr>) = 20"
    "toleranceOf (options\<lparr>opt_tolerance := 20\<rparr>) = 20"
    by (simp_all add: toleranceOf_def)
  have "smartRects data width height (options\<lparr>opt_tolerance := 0\<rparr>) =
        smartRects data width height (options\<lparr>opt_tolerance := 20\<rparr>)"
    by (simp only: smartRects_def p t)
  then show ?thesis
    by (simp add: detectSegments_def t split: option.splits)
qed

section \<open>sliceImage: degenerate Rects\<close>

lemma slice_step_degenerate: "degenerate r \<Longrightarrow> slice_step ctxOk blobOk r s = s"
  by (auto simp: slice_step_def degenerate_def split: prod.splits)

lemma fold_slice_filter:
  "fold (slice_step ctxOk blobOk) rects s =
   fold (slice_step ctxOk blobOk) (filter (\<lambda>r. \<not> degenerate r) rects) s"
  by (induction rects arbitrary: s) (auto simp: slice_step_degenerate)

lemma fold_slice_canvases:
  assumes "c \<in> set (snd (fold (slice_step ctxOk blobOk) rects s))"
  shows "c \<in> set (snd s) \<or> (\<exists>r\<in>set rects. c = (rect_w r, rect_h r) \<and> \<not> degenerate r)"
  using assms
proof (induction rects arbitrary: s)
  case Nil
  then show ?case by simp
next
  case (Cons r rects)
  from Cons.IH[of "slice_step ctxOk blobOk r s"] Cons.prems
  have "c \<in> set (snd (slice_step ctxOk blobOk r s)) \<or>
        (\<exists>r\<in>set rects. c = (rect_w r, rect_h r) \<and> \<not> degenerate r)" by simp
  moreover have "c \<in> set (snd (slice_step ctxOk blobOk r s)) \<Longrightarrow>
       c \<in> set (snd s) \<or> (c = (rect_w r, rect_h r) \<and> \<not> degenerate r)"
    by (cases s) (auto simp: slice_step_def degenerate_def Let_def split: if_splits)
  ultimately show ?case by auto
qed

lemma fold_slice_sprites:
  assumes "p \<in> set (fst (fold (slice_step ctxOk blobOk) rects s))"
  shows "p \<in> set (fst s) \<or>
     (\<exists>r\<in>set rects. sp_image p = r \<and> sp_width p = rect_w r \<and> sp_height p = rect_h r \<and>
        \<not> degenerate r)"
  using assms
proof (induction rects arbitrary: s)
  case Nil
  then show ?case by simp
next
  case (Cons r rects)
  from Cons.IH[of "slice_step ctxOk blobOk r s"] Cons.prems
  have "p \<in> set (fst (slice_step ctxOk blobOk r s)) \<or>
        (\<exists>r\<in>set rects. sp_image p = r \<and> sp_width p = rect_w r \<and> sp_height p = rect_h r \<and>
        \<not> degenerate r)" by simp
  moreover have "p \<in> set (fst (slice_step ctxOk blobOk r s)) \<Longrightarrow>
       p \<in> set (fst s) \<or> (sp_image p = r \<and> sp_width p = rect_w r \<and> sp_height p = rect_h r \<and>
        \<not> degenerate r)"
    by (cases s) (auto simp: slice_step_def degenerate_def Let_def split: if_splits)
  ultimately show ?case by auto
qed

text \<open>
  C8. A Rect with \<open>w < 1\<close> or \<open>h < 1\<close> leaves the state of the slicing loop as it is: no
  sprite, no crop canvas, no failure (the loop has no failing branch). So slicing a list
  of Rects is slicing the list without its degenerate Rects; every crop canvas allocated
  and every sprite produced comes from a Rect of the list with \<open>w \<ge> 1\<close> and \<open>h \<ge> 1\<close>.
\<close>

theorem sliceImage_skips_degenerate_rects:
  "(rect_w r < 1 \<or> rect_h r < 1 \<longrightarrow> slice_step ctxOk blobOk r s = s) \<and>
   sliceRects ctxOk blobOk rects =
     sliceRects ctxOk blobOk (filter (\<lambda>r. \<not> (rect_w r < 1 \<or> rect_h r < 1)) rects) \<and>
   (\<forall>c\<in>set (snd (sliceRects ctxOk blobOk rects)).
      \<exists>r\<in>set rects. c = (rect_w r, rect_h r) \<and> 1 \<le> rect_w r \<and> 1 \<le> rect_h r) \<and>
   (\<forall>p\<in>set (fst (sliceRects ctxOk blobOk rects)).
      \<exists>r\<in>set rects. sp_image p = r \<and> sp_width p = rect_w r \<and> sp_height p = rect_h r \<and>
        1 \<le> rect_w r \<and> 1 \<le> rect_h r)"
proof (intro conjI ballI)
  show "rect_w r < 1 \<or> rect_h r < 1 \<longrightarrow> slice_step ctxOk blobOk r s = s"
    using slice_step_degenerate[of r] by (simp add: degenerate_def)
  show "sliceRects ctxOk blobOk rects =
     sliceRects ctxOk blobOk (filter (\<lambda>r. \<not> (rect_w r < 1 \<or> rect_h r < 1)) rects)"
    using fold_slice_filter[of ctxOk blobOk rects "([], [])"]
    by (simp add: sliceRects_def degenerate_def)
next
  fix c assume "c \<in> set (snd (sliceRects ctxOk blobOk rects))"
  then show "\<exists>r\<in>set rects. c = (rect_w r, rect_h r) \<and> 1 \<le> rect_w r \<and> 1 \<le> rect_h r"
    using fold_slice_canvases[of c ctxOk blobOk rects "([], [])"]
    by (auto simp: sliceRects_def degenerate_def not_less)
next
  fix p assume "p \<in> set (fst (sliceRects ctxOk blobOk rects))"
  then show "\<exists>r\<in>set rects. sp_image p = r \<and> sp_width p = rect_w r \<and> sp_height p = rect_h r \<and>
        1 \<le> rect_w r \<and> 1 \<le> rect_h r"
    using fold_slice_sprites[of p ctxOk blobOk rects "([], [])"]
    by (auto simp: sliceRects_def degenerate_def not_less)
qed

theorem sliceImage_skips_degenerate_rects_witness:
  "rect_w \<lparr>rect_x = 0, rect_y = 0, rect_w = 0, rect_h = 5\<rparr> < 1 \<and>
   slice_step (\<lambda>_. True) (\<lambda>_. True) \<lparr>rect_x = 0, rect_y = 0, rect_w = 0, rect_h = 5\<rparr> ([], [])
     = ([], []) \<and>
   sliceRects (\<lambda>_. True) (\<lambda>_. True)
     [\<lparr>rect_x = 0, rect_y = 0, rect_w = 0, rect_h = 5\<rparr>,
      \<lparr>rect_x = 0, rect_y = 0, rect_w = 2, rect_h = 3\<rparr>,
      \<lparr>rect_x = 1, rect_y = 1, rect_w = 4, rect_h = 1 / 2\<rparr>] =
   ([\<lparr>sp_width = 2, sp_height = 3,
      sp_image = \<lparr>rect_x = 0, rect_y = 0, rect_w = 2, rect_h = 3\<rparr>\<rparr>], [(2, 3)]) \<and>
   sliceRects (\<lambda>_. True) (\<lambda>_. True)
     [\<lparr>rect_x = 0, rect_y = 0, rect_w = 0, rect_h = 5\<rparr>,
      \<lparr>rect_x = 0, rect_y = 0, rect_w = 2, rect_h = 3\<rparr>,
      \<lparr>rect_x = 1, rect_y = 1, rect_w = 4, rect_h = 1 / 2\<rparr>] =
   sliceRects (\<lambda>_. True) (\<lambda>_. True) [\<lparr>rect_x = 0, rect_y = 0, rect_w = 2, rect_h = 3\<rparr>]"
  using sliceImage_skips_degenerate_rects
    [of "\<lparr>rect_x = 0, rect_y = 0, rect_w = 0, rect_h = 5\<rparr>" "\<lambda>_. True" "\<lambda>_. True" "([], [])"
        "[\<lparr>rect_x = 0, rect_y = 0, rect_w = 0, rect_h = 5\<rparr>,
          \<lparr>rect_x = 0, rect_y = 0, rect_w = 2, rect_h = 3\<rparr>,
          \<lparr>rect_x = 1, rect_y = 1, rect_w = 4, rect_h = 1 / 2\<rparr>]"]
  by (simp add: sliceRects_def slice_step_def)

section \<open>The stack loop marks the reachable cells\<close>

lemma length_wr [simp]: "length (wr v n x) = length v"
  by (simp add: wr_def)

lemma rd_wr: "rd (wr v n x) m = (if m = n \<and> 0 \<le> n \<and> n < int (length v) then Some x else rd v m)"
  by (auto simp: rd_def wr_def nth_list_update)

lemma fold_visit_length: "length (fst (fold (visit adm i) ns s)) = length (fst s)"
  by (induction ns arbitrary: s) (auto simp: visit_def split: prod.splits)

lemma fold_visit_rd:
  "rd (fst (fold (visit adm i) ns (v, s))) m =
     (if m \<in> set ns \<and> adm i m \<and> rd v m = Some 0 then Some 1 else rd v m)"
proof (induction ns arbitrary: v s)
  case Nil
  then show ?case by simp
next
  case (Cons n ns)
  show ?case
  proof (cases "adm i n \<and> rd v n = Some 0")
    case True
    then have "visit adm i n (v, s) = (wr v n 1, n # s)" by (simp add: visit_def)
    moreover from True have "0 \<le> n \<and> n < int (length v)" by (auto simp: rd_def split: if_splits)
    ultimately show ?thesis using Cons.IH[of "wr v n 1" "n # s"] True by (auto simp: rd_wr)
  next
    case False
    then have "visit adm i n (v, s) = (v, s)" by (auto simp: visit_def)
    then show ?thesis using Cons.IH[of v s] False by auto
  qed
qed

lemma fold_visit_stack:
  "set (snd (fold (visit adm i) ns (v, s))) = set s \<union> {n \<in> set ns. adm i n \<and> rd v n = Some 0}"
proof (induction ns arbitrary: v s)
  case Nil
  then show ?case by simp
next
  case (Cons n ns)
  show ?case
  proof (cases "adm i n \<and> rd v n = Some 0")
    case True
    then have "visit adm i n (v, s) = (wr v n 1, n # s)" by (simp add: visit_def)
    moreover from True have "0 \<le> n \<and> n < int (length v)" by (auto simp: rd_def split: if_splits)
    ultimately show ?thesis using Cons.IH[of "wr v n 1" "n # s"] True by (auto simp: rd_wr)
  next
    case False
    then have "visit adm i n (v, s) = (v, s)" by (auto simp: visit_def)
    then show ?thesis using Cons.IH[of v s] False by auto
  qed
qed

lemma expand_facts:
  assumes "expand adm w i (v, s) = (v', s')"
  shows "length v' = length v"
    and "rd v' m = (if m \<in> pushed adm w i v then Some 1 else rd v m)"
    and "set s' = set s \<union> pushed adm w i v"
proof -
  show "length v' = length v"
    using assms fold_visit_length[of adm i "[i - 1, i + 1, i - int w, i + int w]" "(v, s)"]
    by (simp add: expand_def)
  show "rd v' m = (if m \<in> pushed adm w i v then Some 1 else rd v m)"
    using assms fold_visit_rd[of adm i "[i - 1, i + 1, i - int w, i + int w]" v s m]
    by (simp add: expand_def pushed_def)
  show "set s' = set s \<union> pushed adm w i v"
    using assms fold_visit_stack[of adm i "[i - 1, i + 1, i - int w, i + int w]" v s]
    by (simp add: expand_def pushed_def)
qed


lemma fill_loop_length: "length (fill_loop adm w v s) = length v"
proof (induction adm w v s rule: fill_loop.induct)
  case (1 adm w visited)
  then show ?case by simp
next
  case (2 adm w visited i stack)
  obtain v' s' where e: "expand adm w i (visited, stack) = (v', s')" by force
  from 2[OF e[symmetric]] expand_facts(1)[OF e] e show ?case by simp
qed

lemma fill_loop_change:
  "rd (fill_loop adm w v s) n \<noteq> rd v n \<Longrightarrow> rd v n = Some 0 \<and> rd (fill_loop adm w v s) n = Some 1"
proof (induction adm w v s rule: fill_loop.induct)
  case (1 adm w visited)
  then show ?case by simp
next
  case (2 adm w visited i stack)
  obtain v' s' where e: "expand adm w i (visited, stack) = (v', s')" by force
  have fl: "fill_loop adm w visited (i # stack) = fill_loop adm w v' s'" using e by simp
  note IH = 2(1)[OF e[symmetric]]
  note rdv = expand_facts(2)[OF e, of n]
  show ?case
  proof (cases "rd (fill_loop adm w v' s') n = rd v' n")
    case True
    with 2(2) fl rdv show ?thesis by (auto simp: pushed_def split: if_splits)
  next
    case False
    from IH[OF False] rdv fl show ?thesis by (auto split: if_splits)
  qed
qed

lemma reach_mono_step:
  assumes "m \<in> reach adm' w S'"
    and "S' \<subseteq> reach adm w S"
    and "\<And>a b. adm' a b \<Longrightarrow> adm a b"
  shows "m \<in> reach adm w S"
  using assms(1)
proof (induction rule: reach.induct)
  case (start i)
  then show ?case using assms(2) by auto
next
  case (step i n)
  then show ?case using assms(3) reach.step by blast
qed

lemma fill_loop_sound:
  "rd v n = Some 0 \<Longrightarrow> rd (fill_loop adm w v s) n = Some 1
     \<Longrightarrow> n \<in> reach (radm adm v) w (set s)"
proof (induction adm w v s rule: fill_loop.induct)
  case (1 adm w visited)
  then show ?case by simp
next
  case (2 adm w visited i stack)
  obtain v' s' where e: "expand adm w i (visited, stack) = (v', s')" by force
  have fl: "fill_loop adm w visited (i # stack) = fill_loop adm w v' s'" using e by simp
  note IH = 2(1)[OF e[symmetric]]
  note rdv = expand_facts(2)[OF e]
  note st = expand_facts(3)[OF e]
  have P: "pushed adm w i visited \<subseteq> reach (radm adm visited) w (set (i # stack))"
  proof
    fix m assume "m \<in> pushed adm w i visited"
    then have "m \<in> set [i - 1, i + 1, i - int w, i + int w]" "radm adm visited i m"
      by (auto simp: pushed_def radm_def)
    moreover have "i \<in> reach (radm adm visited) w (set (i # stack))" by (rule reach.start) simp
    ultimately show "m \<in> reach (radm adm visited) w (set (i # stack))" by (rule reach.step[rotated])
  qed
  show ?case
  proof (cases "n \<in> pushed adm w i visited")
    case True
    with P show ?thesis by auto
  next
    case False
    with rdv[of n] 2(2) have "rd v' n = Some 0" by simp
    moreover from 2(3) fl have "rd (fill_loop adm w v' s') n = Some 1" by simp
    ultimately have "n \<in> reach (radm adm v') w (set s')" by (rule IH)
    then show ?thesis
    proof (rule reach_mono_step)
      show "set s' \<subseteq> reach (radm adm visited) w (set (i # stack))"
        using st P by (auto intro: reach.start)
    next
      fix a b assume "radm adm v' a b"
      then show "radm adm visited a b" using rdv[of b] by (auto simp: radm_def split: if_splits)
    qed
  qed
qed

lemma fill_loop_complete:
  "\<forall>j\<in>set s. rd v j \<noteq> Some 0 \<Longrightarrow> n \<in> reach (radm adm v) w (set s) \<Longrightarrow> rd v n = Some 0
     \<Longrightarrow> rd (fill_loop adm w v s) n = Some 1"
proof (induction adm w v s rule: fill_loop.induct)
  case (1 adm w visited)
  from 1(2) have False
    by (induction rule: reach.induct) auto
  then show ?case ..
next
  case (2 adm w visited i stack)
  obtain v' s' where e: "expand adm w i (visited, stack) = (v', s')" by force
  have fl: "fill_loop adm w visited (i # stack) = fill_loop adm w v' s'" using e by simp
  note IH = 2(1)[OF e[symmetric]]
  note rdv = expand_facts(2)[OF e]
  note st = expand_facts(3)[OF e]
  have inv: "\<forall>j\<in>set s'. rd v' j \<noteq> Some 0"
    using 2(2) st rdv by auto
  have C: "m = i \<or> m \<in> reach (radm adm v') w (set s')"
    if "m \<in> reach (radm adm visited) w (set (i # stack))" for m
    using that
  proof (induction rule: reach.induct)
    case (start k)
    then show ?case using st by (auto intro: reach.start)
  next
    case (step k m)
    from step.hyps have pm: "k = i \<Longrightarrow> m \<in> pushed adm w i visited"
      by (auto simp: pushed_def radm_def)
    show ?case
    proof (cases "m \<in> pushed adm w i visited")
      case True
      then show ?thesis using st by (auto intro: reach.start)
    next
      case False
      with pm step.IH have k: "k \<in> reach (radm adm v') w (set s')" by auto
      from False step.hyps rdv[of m] have "radm adm v' k m" by (simp add: radm_def)
      with k step.hyps show ?thesis by (auto intro: reach.step)
    qed
  qed
  from 2(2,4) have "n \<noteq> i" by auto
  with C[OF 2(3)] have nr: "n \<in> reach (radm adm v') w (set s')" by simp
  show ?case
  proof (cases "rd v' n = Some 0")
    case True
    from IH[OF inv nr True] fl show ?thesis by simp
  next
    case False
    with rdv[of n] 2(4) have "rd v' n = Some 1" by (auto split: if_splits)
    then show ?thesis using fill_loop_change[of adm w v' s' n] fl by auto
  qed
qed

lemma fill_loop_rd:
  assumes "\<forall>j\<in>set s. rd v j \<noteq> Some 0"
  shows "rd (fill_loop adm w v s) n =
     (if rd v n = Some 0 \<and> n \<in> reach (radm adm v) w (set s) then Some 1 else rd v n)"
proof (cases "rd v n = Some 0 \<and> n \<in> reach (radm adm v) w (set s)")
  case True
  then have "rd (fill_loop adm w v s) n = Some 1"
    using fill_loop_complete[OF assms] by blast
  with True show ?thesis by simp
next
  case False
  have "rd (fill_loop adm w v s) n = rd v n"
  proof (rule ccontr)
    assume "rd (fill_loop adm w v s) n \<noteq> rd v n"
    then have c: "rd v n = Some 0" "rd (fill_loop adm w v s) n = Some 1"
      using fill_loop_change[of adm w v s n] by blast+
    then have "n \<in> reach (radm adm v) w (set s)" by (rule fill_loop_sound)
    with c False show False by simp
  qed
  with False show ?thesis by auto
qed

section \<open>generateFloodFillMask\<close>

lemma rd_replicate: "rd (replicate k x) n = (if 0 \<le> n \<and> n < int k then Some x else None)"
  by (auto simp: rd_def)

lemma rd_fold_wr:
  "rd (fold (\<lambda>i v. wr v i x) is v) n =
     (if n \<in> set is \<and> 0 \<le> n \<and> n < int (length v) then Some x else rd v n)"
proof (induction "is" arbitrary: v)
  case Nil
  then show ?case by simp
next
  case (Cons i "is")
  show ?case using Cons.IH[of "wr v i x"] by (auto simp: rd_wr)
qed

lemma length_fold_wr [simp]: "length (fold (\<lambda>i v. wr v i x) is v) = length v"
  by (induction "is" arbitrary: v) auto

lemma reach_radm_eq:
  assumes "\<And>i n. adm i n \<Longrightarrow> n \<in> S \<or> rd v n = Some 0"
  shows "reach (radm adm v) w S = reach adm w S"
proof (intro set_eqI iffI)
  fix m assume "m \<in> reach (radm adm v) w S"
  then show "m \<in> reach adm w S"
    by (rule reach_mono_step) (auto simp: radm_def intro: reach.start)
next
  fix m assume "m \<in> reach adm w S"
  then show "m \<in> reach (radm adm v) w S"
  proof (induction rule: reach.induct)
    case (start i)
    then show ?case by (rule reach.start)
  next
    case (step i n)
    from assms[OF step.hyps(3)] show ?case
    proof
      assume "n \<in> S" then show ?thesis by (rule reach.start)
    next
      assume "rd v n = Some 0"
      with step.hyps(3) have "radm adm v i n" by (simp add: radm_def)
      with step.IH step.hyps(2) show ?thesis by (rule reach.step)
    qed
  qed
qed

lemma flood_visited_length: "length (flood_visited data w h tol) = w * h"
  by (simp add: flood_visited_def fill_loop_length)

lemma flood_visited_nth:
  assumes n: "n < w * h"
  shows "flood_visited data w h tol ! n = (if int n \<in> flood_bg data w h tol then 1 else 0)"
proof -
  define v0 :: "nat list"
    where "v0 = fold (\<lambda>i v. wr v i 1) (corner_seeds w h) (replicate (w * h) 0)"
  define vf where "vf = flood_visited data w h tol"
  have len: "length vf = w * h" by (simp add: vf_def flood_visited_length)
  have rd0: "rd v0 m = (if 0 \<le> m \<and> m < int (w * h)
                        then (if m \<in> set (corner_seeds w h) then Some 1 else Some 0) else None)" for m
    by (simp add: v0_def rd_fold_wr rd_replicate)
  have pre: "\<forall>j\<in>set (rev (corner_seeds w h)). rd v0 j \<noteq> Some 0"
    by (simp add: rd0)
  have eq: "reach (radm (flood_adm data w h tol) v0) w (set (rev (corner_seeds w h)))
            = flood_bg data w h tol"
    unfolding flood_bg_def set_rev
    by (rule reach_radm_eq) (auto simp: rd0 flood_adm_def)
  have "rd vf (int n) = (if rd v0 (int n) = Some 0 \<and> int n \<in> flood_bg data w h tol then Some 1
                          else rd v0 (int n))"
    unfolding vf_def flood_visited_def v0_def[symmetric]
    using fill_loop_rd[OF pre, of "flood_adm data w h tol" w "int n"] eq by simp
  moreover have "int n \<in> set (corner_seeds w h) \<Longrightarrow> int n \<in> flood_bg data w h tol"
    by (simp add: flood_bg_def reach.start)
  moreover have "rd vf (int n) = Some (vf ! n)" using n len by (simp add: rd_def del: of_nat_mult)
  moreover have "int n < int (w * h)" using n by (simp only: of_nat_less_iff)
  ultimately show ?thesis
    unfolding vf_def[symmetric] by (auto simp: rd0 split: if_splits)
qed

lemma generateFloodFillMask_eq:
  "generateFloodFillMask data w h tol =
     map (\<lambda>n. if int n \<in> flood_bg data w h tol then 0 else 1) [0..<w * h]"
proof -
  have g: "generateFloodFillMask data w h tol
           = map (\<lambda>v. if v = 1 then 0 else 1) (flood_visited data w h tol)"
    by (simp add: generateFloodFillMask_def flood_visited_def Let_def)
  show ?thesis
    unfolding g
    by (rule nth_equalityI) (simp_all add: flood_visited_length flood_visited_nth)
qed


text \<open>
  C9. For a buffer of width and height at least 1 the mask is 0 at the four corner
  indices \<open>0\<close>, \<open>w - 1\<close>, \<open>(h - 1) * w\<close> and \<open>w * h - 1\<close>, whatever the data and the
  tolerance: the corners are marked before the loop and never tested against the colour.
\<close>

theorem flood_fill_corners_background:
  assumes "1 \<le> w" and "1 \<le> h"
  shows "generateFloodFillMask data w h tol ! 0 = 0 \<and>
         generateFloodFillMask data w h tol ! (w - 1) = 0 \<and>
         generateFloodFillMask data w h tol ! ((h - 1) * w) = 0 \<and>
         generateFloodFillMask data w h tol ! (w * h - 1) = 0"
proof -
  have c: "generateFloodFillMask data w h tol ! n = 0"
    if "int n \<in> set (corner_seeds w h)" and "n < w * h" for n
  proof -
    from that(1) have "int n \<in> flood_bg data w h tol"
      unfolding flood_bg_def by (rule reach.start)
    with that(2) show ?thesis by (simp add: generateFloodFillMask_eq del: of_nat_mult)
  qed
  from assms obtain w' h' where wh: "w = Suc w'" "h = Suc h'"
    by (metis Suc_le_D One_nat_def)
  have s1: "int 0 \<in> set (corner_seeds w h)" by (simp add: corner_seeds_def)
  have s2: "int (w - 1) \<in> set (corner_seeds w h)"
    unfolding wh by (simp add: corner_seeds_def)
  have s3: "int ((h - 1) * w) \<in> set (corner_seeds w h)"
    unfolding wh by (simp add: corner_seeds_def algebra_simps)
  have s4: "int (w * h - 1) \<in> set (corner_seeds w h)"
    unfolding wh by (simp add: corner_seeds_def algebra_simps)
  have l1: "0 < w * h" unfolding wh by simp
  have l2: "w - 1 < w * h" unfolding wh by simp
  have l3: "(h - 1) * w < w * h" unfolding wh by simp
  have l4: "w * h - 1 < w * h" unfolding wh by simp
  from c[OF s1 l1] c[OF s2 l2] c[OF s3 l3] c[OF s4 l4] show ?thesis by simp
qed

lemma corner_img_mask: "generateFloodFillMask corner_img 3 3 0 = [0, 1, 0, 1, 1, 1, 0, 1, 0]"
  by code_simp

lemma corner_img_far: "\<not> near_bg corner_img 0 2 \<and> \<not> near_bg corner_img 0 6 \<and> \<not> near_bg corner_img 0 8"
  by code_simp

theorem flood_fill_corners_background_witness:
  "(1::nat) \<le> 3 \<and>
   \<not> near_bg corner_img 0 2 \<and> \<not> near_bg corner_img 0 6 \<and> \<not> near_bg corner_img 0 8 \<and>
   generateFloodFillMask corner_img 3 3 0 ! 0 = 0 \<and>
   generateFloodFillMask corner_img 3 3 0 ! 2 = 0 \<and>
   generateFloodFillMask corner_img 3 3 0 ! 6 = 0 \<and>
   generateFloodFillMask corner_img 3 3 0 ! 8 = 0 \<and>
   generateFloodFillMask corner_img 3 3 0 ! 4 = 1"
proof -
  have h: "(1::nat) \<le> 3" by simp
  show ?thesis
    using flood_fill_corners_background[OF h h, of corner_img 0] corner_img_far
    by (simp add: corner_img_mask)
qed

subsection \<open>Index steps and grid neighbours\<close>

text \<open>
  An index step \<open>i - 1\<close>, \<open>i + 1\<close>, \<open>i - w\<close>, \<open>i + w\<close> that passes the wrap guard is a step
  to a grid neighbour, unless the width is 2: there the step from column 1 to column 0 of
  the next row changes the column by 1 only and passes the guard.
\<close>

lemma divmod_decomp:
  fixes W q r :: int
  assumes "0 < W" "0 \<le> r" "r < W"
  shows "(q * W + r) div W = q" and "(q * W + r) mod W = r"
  using assms by simp_all

lemma index_step_to_grid:
  fixes W i n :: int
  assumes W: "0 < W" "W \<noteq> 2"
    and n: "n \<in> set [i - 1, i + 1, i - W, i + W]"
    and g: "\<not> 1 < \<bar>n mod W - i mod W\<bar>"
  shows "(n div W = i div W \<and> \<bar>n mod W - i mod W\<bar> = 1) \<or>
         (n mod W = i mod W \<and> \<bar>n div W - i div W\<bar> = 1)"
proof -
  define x y where "x = i mod W" and "y = i div W"
  have i: "i = y * W + x" by (simp add: x_def y_def)
  have x: "0 \<le> x" "x < W" using W by (simp_all add: x_def)
  from n consider "n = i - 1" | "n = i + 1" | "n = i - W" | "n = i + W" by auto
  then show ?thesis
  proof cases
    case 1
    show ?thesis
    proof (cases "1 \<le> x")
      case True
      have "n = y * W + (x - 1)" using 1 i by simp
      with divmod_decomp[of W "x - 1" y] W x True
      have "n div W = y" "n mod W = x - 1" by simp_all
      then show ?thesis by (simp add: x_def[symmetric] y_def[symmetric])
    next
      case False
      with x have x0: "x = 0" by simp
      have "n = (y - 1) * W + (W - 1)" using 1 i x0 by (simp add: algebra_simps)
      with divmod_decomp[of W "W - 1" "y - 1"] W
      have nd: "n div W = y - 1" "n mod W = W - 1" by simp_all
      with g x0 have "W = 1" using W by (simp add: x_def[symmetric])
      with nd x0 i show ?thesis by (simp add: x_def[symmetric] y_def[symmetric])
    qed
  next
    case 2
    show ?thesis
    proof (cases "x + 1 < W")
      case True
      have "n = y * W + (x + 1)" using 2 i by simp
      with divmod_decomp[of W "x + 1" y] W x True
      have "n div W = y" "n mod W = x + 1" by simp_all
      then show ?thesis by (simp add: x_def[symmetric] y_def[symmetric])
    next
      case False
      with x have xw: "x = W - 1" by simp
      have "n = (y + 1) * W + 0" using 2 i xw by (simp add: algebra_simps)
      with divmod_decomp[of W 0 "y + 1"] W
      have nd: "n div W = y + 1" "n mod W = 0" by simp_all
      with g xw have "W = 1" using W by (simp add: x_def[symmetric])
      with nd xw i show ?thesis by (simp add: x_def[symmetric] y_def[symmetric])
    qed
  next
    case 3
    have "n = (y - 1) * W + x" using 3 i by (simp add: algebra_simps)
    with divmod_decomp[of W x "y - 1"] W x
    have "n div W = y - 1" "n mod W = x" by simp_all
    then show ?thesis by (simp add: x_def[symmetric] y_def[symmetric])
  next
    case 4
    have "n = (y + 1) * W + x" using 4 i by (simp add: algebra_simps)
    with divmod_decomp[of W x "y + 1"] W x
    have "n div W = y + 1" "n mod W = x" by simp_all
    then show ?thesis by (simp add: x_def[symmetric] y_def[symmetric])
  qed
qed

lemma grid_to_index_step:
  fixes W i n :: int
  assumes W: "0 < W"
    and a: "(n div W = i div W \<and> \<bar>n mod W - i mod W\<bar> = 1) \<or>
         (n mod W = i mod W \<and> \<bar>n div W - i div W\<bar> = 1)"
  shows "n \<in> set [i - 1, i + 1, i - W, i + W] \<and> \<not> 1 < \<bar>n mod W - i mod W\<bar>"
proof -
  define qn rn qi ri where "qn = n div W" and "rn = n mod W" and "qi = i div W" and "ri = i mod W"
  have n: "n = qn * W + rn" and i: "i = qi * W + ri"
    by (simp_all add: qn_def rn_def qi_def ri_def)
  from a have a': "(qn = qi \<and> \<bar>rn - ri\<bar> = 1) \<or> (rn = ri \<and> \<bar>qn - qi\<bar> = 1)"
    by (simp add: qn_def rn_def qi_def ri_def)
  have "(n = i - 1 \<or> n = i + 1 \<or> n = i - W \<or> n = i + W) \<and> \<not> 1 < \<bar>rn - ri\<bar>"
    using a'
  proof
    assume r: "qn = qi \<and> \<bar>rn - ri\<bar> = 1"
    then have "rn - ri = 1 \<or> rn - ri = -1" by linarith
    with r show ?thesis unfolding n i by auto
  next
    assume c: "rn = ri \<and> \<bar>qn - qi\<bar> = 1"
    then have "qn = qi + 1 \<or> qn = qi - 1" by linarith
    with c show ?thesis unfolding n i by (auto simp: algebra_simps)
  qed
  then show ?thesis by (simp add: rn_def ri_def)
qed


lemma corner_seeds_nat:
  assumes "1 \<le> w" "1 \<le> h"
  shows "corner_seeds w h = map int [0, w - 1, (h - 1) * w, w * h - 1]"
    and "0 < w * h" "w - 1 < w * h" "(h - 1) * w < w * h" "w * h - 1 < w * h"
proof -
  from assms obtain w' h' where wh: "w = Suc w'" "h = Suc h'"
    by (metis Suc_le_D One_nat_def)
  show "corner_seeds w h = map int [0, w - 1, (h - 1) * w, w * h - 1]"
    unfolding wh by (simp add: corner_seeds_def algebra_simps)
  show "0 < w * h" "w - 1 < w * h" "(h - 1) * w < w * h" "w * h - 1 < w * h"
    unfolding wh by simp_all
qed

lemma corner_seeds_range:
  assumes "1 \<le> w" "1 \<le> h" "c \<in> set (corner_seeds w h)"
  shows "0 \<le> c \<and> c < int (w * h)"
proof -
  from assms(3) have "c \<in> int ` set [0, w - 1, (h - 1) * w, w * h - 1]"
    by (simp only: corner_seeds_nat(1)[OF assms(1,2)] set_map)
  then obtain k where k: "c = int k" "k \<in> set [0, w - 1, (h - 1) * w, w * h - 1]" by blast
  from k(2) have "k < w * h" using corner_seeds_nat(2-5)[OF assms(1,2)] by auto
  with k(1) show ?thesis by (simp del: of_nat_mult)
qed

lemma flood_bg_range:
  assumes "1 \<le> w" "1 \<le> h" "c \<in> flood_bg data w h tol"
  shows "0 \<le> c \<and> c < int (w * h)"
  using assms(3) unfolding flood_bg_def
proof (induction rule: reach.induct)
  case (start i)
  then show ?case using corner_seeds_range[OF assms(1,2)] by blast
next
  case (step i n)
  then show ?case by (simp add: flood_adm_def)
qed

lemma flood4_range:
  assumes "1 \<le> w" "1 \<le> h" "c \<in> flood4 data w h tol"
  shows "0 \<le> c \<and> c < int (w * h)"
  using assms(3)
proof (induction rule: flood4.induct)
  case (corner c)
  then show ?case using corner_seeds_range[OF assms(1,2)] by blast
next
  case (nbr i n)
  then show ?case by (simp add: grid_adj_def)
qed

lemma flood_bg_eq_flood4:
  assumes w: "1 \<le> w" "w \<noteq> 2" and h: "1 \<le> h"
  shows "flood_bg data w h tol = flood4 data w h tol"
proof (intro set_eqI iffI)
  fix c assume "c \<in> flood_bg data w h tol"
  then show "c \<in> flood4 data w h tol"
    unfolding flood_bg_def
  proof (induction rule: reach.induct)
    case (start i)
    then show ?case by (rule flood4.corner)
  next
    case (step i n)
    have i: "0 \<le> i \<and> i < int (w * h)"
      using step.IH flood4_range[OF w(1) h] by blast
    from step.hyps(3) have a: "0 \<le> n" "n < int (w * h)"
      "\<not> 1 < \<bar>n mod int w - i mod int w\<bar>" "near_bg data tol n"
      by (simp_all add: flood_adm_def)
    have "grid_adj w h i n"
      unfolding grid_adj_def
      using index_step_to_grid[of "int w" n i, OF _ _ step.hyps(2) a(3)] w i a(1,2) by simp
    from flood4.nbr[OF step.IH this a(4)] show ?case .
  qed
next
  fix c assume "c \<in> flood4 data w h tol"
  then show "c \<in> flood_bg data w h tol"
  proof (induction rule: flood4.induct)
    case (corner c)
    then show ?case unfolding flood_bg_def by (rule reach.start)
  next
    case (nbr i n)
    from nbr.hyps(2) have s: "n \<in> set [i - 1, i + 1, i - int w, i + int w]"
      "\<not> 1 < \<bar>n mod int w - i mod int w\<bar>"
      using grid_to_index_step[of "int w" n i] w by (simp_all add: grid_adj_def)
    from nbr.hyps(2,3) s(2) have "flood_adm data w h tol i n"
      by (simp add: flood_adm_def grid_adj_def)
    with nbr.IH s(1) show ?case unfolding flood_bg_def by (rule reach.step)
  qed
qed

lemma flood_fill_four_connected:
  assumes "1 \<le> w" "w \<noteq> 2" "1 \<le> h"
  shows "generateFloodFillMask data w h tol =
     map (\<lambda>n. if int n \<in> flood4 data w h tol then 0 else 1) [0..<w * h]"
  by (simp only: generateFloodFillMask_eq flood_bg_eq_flood4[OF assms])

lemma leak_img_far: "\<not> near_bg leak_img 10 2" "\<not> near_bg leak_img 10 5" "\<not> near_bg leak_img 10 6"
  by code_simp+

lemma leak_img_flood4: "flood4 leak_img 2 5 10 \<subseteq> {0, 1, 3, 7, 8, 9}"
proof
  fix c assume "c \<in> flood4 leak_img 2 5 10"
  then show "c \<in> {0, 1, 3, 7, 8, 9}"
  proof (induction rule: flood4.induct)
    case (corner c)
    then show ?case by (auto simp: corner_seeds_def)
  next
    case (nbr i n)
    from nbr.hyps(2) have "0 \<le> n" "n < 10" by (simp_all add: grid_adj_def)
    moreover have "n \<noteq> 2" "n \<noteq> 5" "n \<noteq> 6" using nbr.hyps(3) leak_img_far by auto
    moreover have "n \<noteq> 4"
    proof
      assume "n = 4"
      with nbr.hyps(2) nbr.IH show False by (auto simp: grid_adj_def)
    qed
    ultimately have "n = 0 \<or> n = 1 \<or> n = 3 \<or> n = 7 \<or> n = 8 \<or> n = 9" by presburger
    then show ?case by auto
  qed
qed

text \<open>
  C1. The mask is claimed to be the flood fill from the four corners over up/down/left/right
  neighbours for every buffer. That holds for every width other than 2
  (\<open>flood_fill_four_connected\<close>). At width 2 the wrap guard lets the index step from
  column 1 of a row to column 0 of the next row pass: in \<open>leak_img\<close> the black pixel 4 is
  reached from pixel 3 and marked background, although it is not in the 4-connected
  flood fill (its grid neighbours 2, 5 and 6 are white).
\<close>

theorem flood_fill_leaks_at_width_2:
  "generateFloodFillMask leak_img 2 5 10 = [0, 0, 1, 0, 0, 1, 1, 0, 0, 0] \<and>
   generateFloodFillMask leak_img 2 5 10 ! 4 = 0 \<and>
   4 \<notin> flood4 leak_img 2 5 10 \<and>
   \<not> near_bg leak_img 10 2 \<and> \<not> near_bg leak_img 10 5 \<and> \<not> near_bg leak_img 10 6"
proof -
  have m: "generateFloodFillMask leak_img 2 5 10 = [0, 0, 1, 0, 0, 1, 1, 0, 0, 0]"
    by code_simp
  have "4 \<notin> flood4 leak_img 2 5 10" using leak_img_flood4 by auto
  with m leak_img_far show ?thesis by simp
qed

section \<open>fillInternalHoles\<close>

lemma fold_pair_concat:
  "fold (\<lambda>x s. f (b x) (f (a x) s)) xs s0 = fold f (concat (map (\<lambda>x. [a x, b x]) xs)) s0"
  by (induction xs arbitrary: s0) auto

lemma seed_edges_fold:
  "seed_edges msk w h = fold (seed msk) (border_cells w h) (replicate (w * h) 0, [])"
proof -
  have c: "fold (\<lambda>x s. seed msk ((int h - 1) * int w + int x) (seed msk (int x) s)) xs s0 =
           fold (seed msk) (concat (map (\<lambda>x. [int x, (int h - 1) * int w + int x]) xs)) s0"
    for xs s0
    by (rule fold_pair_concat)
  have r: "fold (\<lambda>y s. seed msk (int y * int w + int w - 1) (seed msk (int y * int w) s)) ys s0 =
           fold (seed msk) (concat (map (\<lambda>y. [int y * int w, int y * int w + int w - 1]) ys)) s0"
    for ys s0
    by (rule fold_pair_concat)
  show ?thesis
    by (simp only: seed_edges_def border_cells_def fold_append c r comp_apply)
qed

lemma fold_seed_length: "length (fst (fold (seed msk) bs s)) = length (fst s)"
  by (induction bs arbitrary: s) (auto simp: seed_def split: prod.splits)

lemma fold_seed_rd:
  "rd (fst (fold (seed msk) bs (v, s))) n =
     (if n \<in> set bs \<and> rd msk n = Some 0 \<and> 0 \<le> n \<and> n < int (length v) then Some 1 else rd v n)"
proof (induction bs arbitrary: v s)
  case Nil
  then show ?case by simp
next
  case (Cons b bs)
  show ?case
  proof (cases "rd msk b = Some 0")
    case True
    then have "seed msk b (v, s) = (wr v b 1, b # s)" by (simp add: seed_def)
    then show ?thesis using Cons.IH[of "wr v b 1" "b # s"] True by (auto simp: rd_wr)
  next
    case False
    then have "seed msk b (v, s) = (v, s)" by (simp add: seed_def)
    then show ?thesis using Cons.IH[of v s] False by auto
  qed
qed

lemma fold_seed_stack:
  "set (snd (fold (seed msk) bs (v, s))) = set s \<union> {n \<in> set bs. rd msk n = Some 0}"
proof (induction bs arbitrary: v s)
  case Nil
  then show ?case by simp
next
  case (Cons b bs)
  show ?case
  proof (cases "rd msk b = Some 0")
    case True
    then have "seed msk b (v, s) = (wr v b 1, b # s)" by (simp add: seed_def)
    then show ?thesis using Cons.IH[of "wr v b 1" "b # s"] True by auto
  next
    case False
    then have "seed msk b (v, s) = (v, s)" by (simp add: seed_def)
    then show ?thesis using Cons.IH[of v s] False by auto
  qed
qed

lemma outer_bg_zero: "n \<in> outer_bg msk w h \<Longrightarrow> rd msk n = Some 0"
  unfolding outer_bg_def
  by (induction rule: reach.induct) (auto simp: hole_seeds_def hole_adm_def)

lemma fillInternalHoles_eq:
  assumes len: "length msk = w * h"
  shows "fillInternalHoles msk w h =
     map (\<lambda>i. if msk ! i = 0 \<and> int i \<notin> outer_bg msk w h then 1 else msk ! i) [0..<length msk]"
proof -
  obtain v0 s0 where e: "seed_edges msk w h = (v0, s0)" by force
  define vf where "vf = fill_loop (hole_adm msk w) w v0 s0"
  have F: "fillInternalHoles msk w h =
     map (\<lambda>i. if msk ! i = 0 \<and> rd vf (int i) = Some 0 then 1 else msk ! i) [0..<length msk]"
    by (simp add: fillInternalHoles_def e vf_def)
  have v0: "v0 = fst (fold (seed msk) (border_cells w h) (replicate (w * h) 0, []))"
    and s0: "s0 = snd (fold (seed msk) (border_cells w h) (replicate (w * h) 0, []))"
    using e by (simp_all add: seed_edges_fold)
  have rd0: "rd v0 n = (if 0 \<le> n \<and> n < int (w * h)
                        then (if n \<in> hole_seeds msk w h then Some 1 else Some 0) else None)" for n
    unfolding v0 fold_seed_rd by (auto simp: rd_replicate hole_seeds_def)
  have set0: "set s0 = hole_seeds msk w h"
    unfolding s0 fold_seed_stack by (simp add: hole_seeds_def)
  have seeds_in: "n \<in> hole_seeds msk w h \<Longrightarrow> 0 \<le> n \<and> n < int (w * h)" for n
    using len by (auto simp: hole_seeds_def rd_def split: if_splits)
  have pre: "\<forall>j\<in>set s0. rd v0 j \<noteq> Some 0"
    unfolding set0 using seeds_in by (simp add: rd0)
  have eq: "reach (radm (hole_adm msk w) v0) w (set s0) = outer_bg msk w h"
    unfolding outer_bg_def set0
    by (rule reach_radm_eq) (auto simp: rd0 hole_adm_def len)
  have vf: "rd vf n = (if rd v0 n = Some 0 \<and> n \<in> outer_bg msk w h then Some 1 else rd v0 n)" for n
    unfolding vf_def using fill_loop_rd[OF pre, of "hole_adm msk w" w n] eq by simp
  have key: "rd vf (int i) = Some 0 \<longleftrightarrow> int i \<notin> outer_bg msk w h" if "i < length msk" for i
  proof -
    have r: "0 \<le> int i \<and> int i < int (w * h)" using that len by (simp del: of_nat_mult)
    have "int i \<in> hole_seeds msk w h \<Longrightarrow> int i \<in> outer_bg msk w h"
      unfolding outer_bg_def by (rule reach.start)
    then show ?thesis using r by (auto simp: vf rd0)
  qed
  show ?thesis
    unfolding F by (rule map_cong) (auto simp: key)
qed


lemma fillInternalHoles_length:
  "length msk = w * h \<Longrightarrow> length (fillInternalHoles msk w h) = length msk"
  by (simp add: fillInternalHoles_eq)

lemma fillInternalHoles_zero:
  assumes len: "length msk = w * h"
  shows "rd (fillInternalHoles msk w h) n = Some 0 \<longleftrightarrow> n \<in> outer_bg msk w h"
proof (cases "0 \<le> n \<and> n < int (length msk)")
  case True
  then obtain i where i: "n = int i" "i < length msk"
    by (metis nat_less_iff nonneg_int_cases of_nat_less_iff)
  have "int i \<in> outer_bg msk w h \<Longrightarrow> msk ! i = 0"
    using outer_bg_zero[of "int i" msk w h] i(2) by (simp add: rd_def)
  then show ?thesis
    using i by (auto simp: fillInternalHoles_eq[OF len] rd_def)
next
  case False
  then have "rd (fillInternalHoles msk w h) n = None"
    by (auto simp: rd_def fillInternalHoles_length[OF len])
  moreover from False have "rd msk n = None" by (auto simp: rd_def)
  then have "n \<notin> outer_bg msk w h" using outer_bg_zero[of n msk w h] by auto
  ultimately show ?thesis by simp
qed

lemma outer_bg_fill:
  assumes len: "length msk = w * h"
  shows "outer_bg (fillInternalHoles msk w h) w h = outer_bg msk w h"
proof -
  let ?m' = "fillInternalHoles msk w h"
  note z = fillInternalHoles_zero[OF len]
  have seeds: "hole_seeds ?m' w h = hole_seeds msk w h"
  proof -
    have "n \<in> set (border_cells w h) \<Longrightarrow> rd msk n = Some 0 \<Longrightarrow> n \<in> outer_bg msk w h" for n
      unfolding outer_bg_def by (rule reach.start) (simp add: hole_seeds_def)
    then show ?thesis
      using outer_bg_zero[of _ msk w h] by (auto simp: hole_seeds_def z)
  qed
  have adm': "hole_adm ?m' w i n \<longleftrightarrow> hole_adm msk w i n \<and> n \<in> outer_bg msk w h" for i n
    using outer_bg_zero[of n msk w h]
    by (auto simp: hole_adm_def z fillInternalHoles_length[OF len])
  show ?thesis
  proof (intro set_eqI iffI)
    fix c assume "c \<in> outer_bg ?m' w h"
    then show "c \<in> outer_bg msk w h"
      unfolding outer_bg_def seeds
      by (rule reach_mono_step) (auto simp: adm'[unfolded outer_bg_def] intro: reach.start)
  next
    fix c assume "c \<in> outer_bg msk w h"
    then show "c \<in> outer_bg ?m' w h"
      unfolding outer_bg_def seeds
    proof (induction rule: reach.induct)
      case (start i)
      then show ?case by (rule reach.start)
    next
      case (step i n)
      from step.hyps have "n \<in> reach (hole_adm msk w) w (hole_seeds msk w h)"
        by (rule reach.step)
      with step.hyps(3) have "hole_adm ?m' w i n" by (simp add: adm' outer_bg_def)
      with step.IH step.hyps(2) show ?case by (rule reach.step)
    qed
  qed
qed

text \<open>
  C6. Hole filling is idempotent: on a mask of the buffer's size (\<open>w * h\<close> cells), filling
  the holes of the filled mask changes nothing.
\<close>

theorem fillInternalHoles_idempotent:
  assumes len: "length msk = w * h"
  shows "fillInternalHoles (fillInternalHoles msk w h) w h = fillInternalHoles msk w h"
proof -
  let ?m' = "fillInternalHoles msk w h"
  have len': "length ?m' = w * h" using len by (simp add: fillInternalHoles_length)
  have "fillInternalHoles ?m' w h =
        map (\<lambda>i. if ?m' ! i = 0 \<and> int i \<notin> outer_bg msk w h then 1 else ?m' ! i) [0..<length ?m']"
    by (simp only: fillInternalHoles_eq[OF len'] outer_bg_fill[OF len])
  also have "\<dots> = map (\<lambda>i. ?m' ! i) [0..<length ?m']"
  proof (rule map_cong)
    fix i assume "i \<in> set [0..<length ?m']"
    then have i: "i < length ?m'" by simp
    have "?m' ! i = 0 \<Longrightarrow> int i \<in> outer_bg msk w h"
      using fillInternalHoles_zero[OF len, of "int i"] i by (simp add: rd_def)
    then show "(if ?m' ! i = 0 \<and> int i \<notin> outer_bg msk w h then 1 else ?m' ! i) = ?m' ! i"
      by auto
  qed simp
  also have "\<dots> = ?m'" by (rule map_nth)
  finally show ?thesis .
qed

lemma ring_mask_filled:
  "fillInternalHoles ring_mask 5 5 =
     [0, 0, 0, 0, 0,
      0, 1, 1, 1, 0,
      0, 1, 1, 1, 0,
      0, 1, 1, 1, 0,
      0, 0, 0, 0, 0]"
  by code_simp

theorem fillInternalHoles_idempotent_witness:
  "length ring_mask = 5 * 5 \<and>
   fillInternalHoles ring_mask 5 5 \<noteq> ring_mask \<and>
   fillInternalHoles (fillInternalHoles ring_mask 5 5) 5 5 = fillInternalHoles ring_mask 5 5"
proof -
  have l: "length ring_mask = 5 * 5" by (simp add: ring_mask_def)
  have "fillInternalHoles ring_mask 5 5 \<noteq> ring_mask"
    unfolding ring_mask_filled by (simp add: ring_mask_def)
  with l fillInternalHoles_idempotent[OF l] show ?thesis by simp
qed

section \<open>processSticker\<close>

lemma fgCells_alt: "fgCells msk = {i. i < length msk \<and> msk ! i = 1}"
  by (auto simp: fgCells_def)

lemma fold_wr_cond_length:
  "length (fold (\<lambda>i nx. if c i then wr nx (f i) x else nx) is nxt) = length nxt"
  by (induction "is" arbitrary: nxt) auto

lemma fold_wr_cond_nth:
  "k < length nxt \<Longrightarrow>
   fold (\<lambda>i nx. if c i then wr nx (f i) x else nx) is nxt ! k = nxt ! k \<or>
   fold (\<lambda>i nx. if c i then wr nx (f i) x else nx) is nxt ! k = x"
proof (induction "is" arbitrary: nxt)
  case Nil
  then show ?case by simp
next
  case (Cons i "is")
  have "(if c i then wr nxt (f i) x else nxt) ! k = nxt ! k \<or>
        (if c i then wr nxt (f i) x else nxt) ! k = x"
    using Cons.prems by (auto simp: wr_def nth_list_update)
  moreover have "k < length (if c i then wr nxt (f i) x else nxt)" using Cons.prems by simp
  ultimately show ?case using Cons.IH[of "if c i then wr nxt (f i) x else nxt"] by auto
qed

lemma erode_sweep_length: "length (erode_sweep cur nxt w) = length nxt"
  unfolding erode_sweep_def by (rule fold_wr_cond_length)

lemma erode_sweep_nth:
  "k < length nxt \<Longrightarrow> erode_sweep cur nxt w ! k = nxt ! k \<or> erode_sweep cur nxt w ! k = 0"
  unfolding erode_sweep_def by (rule fold_wr_cond_nth)

lemma erode_passes_length: "length nxt = length cur \<Longrightarrow> length (erode_passes p w cur nxt) = length cur"
  by (induction p arbitrary: cur nxt) (simp_all add: Let_def erode_sweep_length)

lemma erode_passes_nth:
  "length nxt = length cur \<Longrightarrow> k < length cur \<Longrightarrow> erode_passes p w cur nxt ! k = 1
     \<Longrightarrow> cur ! k = 1 \<or> (0 < p \<and> nxt ! k = 1)"
proof (induction p arbitrary: cur nxt)
  case 0
  then show ?case by simp
next
  case (Suc p)
  let ?n = "erode_sweep cur nxt w"
  have l: "length ?n = length ?n" "k < length ?n" using Suc.prems by (simp_all add: erode_sweep_length)
  from Suc.prems(3) have "erode_passes p w ?n ?n ! k = 1" by (simp add: Let_def)
  from Suc.IH[OF l this] have "?n ! k = 1" by auto
  with erode_sweep_nth[of k nxt cur w] Suc.prems show ?case by auto
qed

lemma erode_length: "length (erode msk w h passes) = length msk"
  by (simp add: erode_def erode_passes_length)

lemma erode_foreground: "k < length msk \<Longrightarrow> erode msk w h passes ! k = 1 \<Longrightarrow> msk ! k = 1"
  using erode_passes_nth[of msk msk k "nat passes" w] by (auto simp: erode_def split: if_splits)

lemma generateFloodFillMask_length: "length (generateFloodFillMask data w h tol) = w * h"
  by (simp add: generateFloodFillMask_eq)

lemma generateGlobalMask_length: "length (generateGlobalMask data w h tol) = w * h"
  by (simp add: generateGlobalMask_def)

lemma repairedMask_length: "length (repairedMask data w h config) = w * h"
  by (simp add: repairedMask_def Let_def erode_length fillInternalHoles_length
      generateFloodFillMask_length generateGlobalMask_length)

lemma Min_insert_if:
  fixes a b :: int
  assumes "finite A"
  shows "Min (insert b (insert a A)) = (if a < Min (insert b A) then a else Min (insert b A))"
proof -
  have "insert b (insert a A) = insert a (insert b A)" by auto
  moreover have "Min (insert a (insert b A)) = min a (Min (insert b A))"
    by (rule Min_insert) (use assms in auto)
  ultimately show ?thesis by (simp only: min_def) auto
qed

lemma Max_insert_if:
  fixes a b :: int
  assumes "finite A"
  shows "Max (insert b (insert a A)) = (if a > Max (insert b A) then a else Max (insert b A))"
proof -
  have "insert b (insert a A) = insert a (insert b A)" by auto
  moreover have "Max (insert a (insert b A)) = max a (Max (insert b A))"
    by (rule Max_insert) (use assms in auto)
  ultimately show ?thesis by (simp only: max_def) auto
qed

lemma cropBounds_prefix:
  "fold (bounds_step msk w) [0..<k] (int w, 0, int h, 0, False) =
     (Min (insert (int w) ((\<lambda>i. int i mod int w) ` fgBelow msk k)),
      Max (insert 0 ((\<lambda>i. int i mod int w) ` fgBelow msk k)),
      Min (insert (int h) ((\<lambda>i. int i div int w) ` fgBelow msk k)),
      Max (insert 0 ((\<lambda>i. int i div int w) ` fgBelow msk k)),
      fgBelow msk k \<noteq> {})"
proof (induction k)
  case 0
  then show ?case by (simp add: fgBelow_def)
next
  case (Suc k)
  let ?X = "(\<lambda>i. int i mod int w) ` fgBelow msk k"
  let ?Y = "(\<lambda>i. int i div int w) ` fgBelow msk k"
  have fin: "finite ?X" "finite ?Y" by (simp_all add: fgBelow_def)
  have st: "fold (bounds_step msk w) [0..<Suc k] (int w, 0, int h, 0, False) =
        bounds_step msk w k (Min (insert (int w) ?X), Max (insert 0 ?X),
                             Min (insert (int h) ?Y), Max (insert 0 ?Y), fgBelow msk k \<noteq> {})"
    by (simp only: upt_Suc_append[OF le0] fold_append fold_simps comp_apply Suc.IH id_apply)
  show ?case
  proof (cases "msk ! k = 1")
    case True
    then have FS: "fgBelow msk (Suc k) = insert k (fgBelow msk k)"
      by (auto simp: fgBelow_def less_Suc_eq)
    have ne: "fgBelow msk (Suc k) \<noteq> {}" unfolding FS by simp
    show ?thesis
      unfolding st
      by (simp only: FS image_insert Min_insert_if[OF fin(1)] Max_insert_if[OF fin(1)]
          Min_insert_if[OF fin(2)] Max_insert_if[OF fin(2)] bounds_step_def True
          if_True Let_def case_prod_conv insert_not_empty not_False_eq_True simp_thms)
  next
    case False
    then have FS: "fgBelow msk (Suc k) = fgBelow msk k" by (auto simp: fgBelow_def less_Suc_eq)
    show ?thesis
      unfolding st by (simp only: FS bounds_step_def False if_False case_prod_conv simp_thms)
  qed
qed

lemma cropBounds_fold: "cropBounds msk w h = fold (bounds_step msk w) [0..<length msk] (int w, 0, int h, 0, False)"
  by (simp only: cropBounds_def bounds_step_def)

lemma fgBelow_length: "fgBelow msk (length msk) = fgCells msk"
  by (simp add: fgBelow_def fgCells_alt)

lemma cropBounds_empty:
  assumes "fgCells msk = {}"
  shows "cropBounds msk w h = (int w, 0, int h, 0, False)"
  by (simp add: cropBounds_fold cropBounds_prefix fgBelow_length assms)

lemma cropBounds_eq:
  assumes ne: "fgCells msk \<noteq> {}" and len: "length msk = w * h"
  shows "cropBounds msk w h =
     (Min (fgCols msk w), Max (fgCols msk w), Min (fgRows msk w), Max (fgRows msk w), True)"
proof -
  have fin: "finite (fgCells msk)" by (simp add: fgCells_alt)
  from ne len have w: "0 < w" by (auto simp: fgCells_alt intro: Nat.gr0I)
  have cols: "0 \<le> x \<and> x \<le> int w" if "x \<in> fgCols msk w" for x
    using that w by (auto simp: fgCols_def intro: less_imp_le)
  have rows: "0 \<le> y \<and> y \<le> int h" if "y \<in> fgRows msk w" for y
  proof -
    from that obtain i where i: "i < w * h" "y = int i div int w"
      using len by (auto simp: fgRows_def fgCells_alt)
    have "i div w < h" using i(1) w by (simp add: less_mult_imp_div_less mult.commute)
    moreover have "y = int (i div w)" using i(2) by (simp add: zdiv_int)
    ultimately show ?thesis by simp
  qed
  have nec: "fgCols msk w \<noteq> {}" and ner: "fgRows msk w \<noteq> {}"
    using ne by (simp_all add: fgCols_def fgRows_def)
  have finc: "finite (fgCols msk w)" and finr: "finite (fgRows msk w)"
    using fin by (simp_all add: fgCols_def fgRows_def)
  have 1: "Min (insert (int w) (fgCols msk w)) = Min (fgCols msk w)"
    using cols nec finc by (simp add: min_absorb2)
  have 2: "Max (insert 0 (fgCols msk w)) = Max (fgCols msk w)"
    using cols nec finc by (simp add: max_absorb2)
  have 3: "Min (insert (int h) (fgRows msk w)) = Min (fgRows msk w)"
    using rows ner finr by (simp add: min_absorb2)
  have 4: "Max (insert 0 (fgRows msk w)) = Max (fgRows msk w)"
    using rows ner finr by (simp add: max_absorb2)
  show ?thesis
    using ne
    by (simp only: cropBounds_fold cropBounds_prefix fgBelow_length fgCols_def[symmetric]
        fgRows_def[symmetric] 1 2 3 4) simp
qed

lemma rd_int: "rd a (int k) = (if k < length a then Some (a ! k) else None)"
  by (simp add: rd_def)

lemma uniform_nth:
  assumes "uniform data w h" "n < w * h" "k < 3"
  shows "data ! (4 * n + k) = data ! k" "4 * n + k < length data" "k < length data"
  using assms by (auto simp: uniform_def list_all_iff)

lemma threshSq_nonneg: "0 \<le> threshSq tol"
  by (simp add: threshSq_def Let_def)

lemma near_bg_uniform:
  assumes u: "uniform data w h" and n: "n < w * h"
  shows "near_bg data tol (int n)"
proof -
  have r: "rd data (int n * 4 + int k) = Some (data ! k)" if "k < 3" for k
  proof -
    have "rd data (int n * 4 + int k) = rd data (int (4 * n + k))" by (simp add: algebra_simps)
    also have "\<dots> = Some (data ! (4 * n + k))"
      using uniform_nth(2)[OF u n that] by (simp only: rd_int if_True)
    finally show ?thesis using uniform_nth(1)[OF u n that] by simp
  qed
  have b: "rd data (int k) = Some (data ! k)" if "k < 3" for k
    using uniform_nth(3)[OF u n that] by (simp add: rd_def)
  have "sqdist data (int n) = Some 0"
    using r[of 0] r[of 1] r[of 2] b[of 0] b[of 1] b[of 2] by (simp add: sqdist_def)
  then show ?thesis by (simp add: near_bg_def threshSq_nonneg)
qed

lemma flood_bg_uniform:
  assumes u: "uniform data w h" and n: "n < w * h"
  shows "int n \<in> flood_bg data w h tol"
proof -
  from n have w: "0 < w" and h: "0 < h" by (auto intro: Nat.gr0I)
  have col: "int (y * w) \<in> flood_bg data w h tol" if "y < h" for y
    using that
  proof (induction y)
    case 0
    show ?case unfolding flood_bg_def by (rule reach.start) (simp add: corner_seeds_def)
  next
    case (Suc y)
    then have i: "int (y * w) \<in> flood_bg data w h tol" by simp
    have "Suc y * w < h * w" using Suc.prems w by (intro mult_less_mono1)
    then have lt: "Suc y * w < w * h" by (simp only: mult.commute)
    have "flood_adm data w h tol (int (y * w)) (int (Suc y * w))"
      using near_bg_uniform[OF u lt, of tol] lt
      by (simp add: flood_adm_def del: of_nat_mult)
    moreover have "int (Suc y * w) \<in> set [int (y * w) - 1, int (y * w) + 1,
         int (y * w) - int w, int (y * w) + int w]" by (simp add: algebra_simps)
    ultimately show ?case using i unfolding flood_bg_def by (metis reach.step)
  qed
  have row: "int (y * w + x) \<in> flood_bg data w h tol" if "y < h" "x < w" for y x
    using that(2)
  proof (induction x)
    case 0
    then show ?case using col[OF that(1)] by simp
  next
    case (Suc x)
    then have i: "int (y * w + x) \<in> flood_bg data w h tol" by simp
    have "y * w + Suc x < y * w + w" using Suc.prems by simp
    also have "\<dots> = Suc y * w" by simp
    also have "\<dots> \<le> h * w" using that(1) by (intro mult_le_mono1) simp
    finally have lt: "y * w + Suc x < w * h" by (simp add: mult.commute)
    have m1: "int (y * w + Suc x) mod int w = int (Suc x)"
      using Suc.prems by (simp add: zmod_int[symmetric] del: of_nat_Suc of_nat_add of_nat_mult)
    have m2: "int (y * w + x) mod int w = int x"
      using Suc.prems by (simp add: zmod_int[symmetric] del: of_nat_Suc of_nat_add of_nat_mult)
    have "flood_adm data w h tol (int (y * w + x)) (int (y * w + Suc x))"
      using near_bg_uniform[OF u lt, of tol] lt
      unfolding flood_adm_def m1 m2 by (simp del: of_nat_mult of_nat_add)
    moreover have "int (y * w + Suc x) \<in> set [int (y * w + x) - 1, int (y * w + x) + 1,
         int (y * w + x) - int w, int (y * w + x) + int w]" by simp
    ultimately show ?case using i unfolding flood_bg_def by (metis reach.step)
  qed
  have "n = (n div w) * w + n mod w" by simp
  moreover have "n div w < h" using n w by (simp add: less_mult_imp_div_less mult.commute)
  moreover have "n mod w < w" using w by simp
  ultimately show ?thesis using row[of "n div w" "n mod w"] by simp
qed

lemma generateFloodFillMask_uniform:
  assumes "uniform data w h"
  shows "generateFloodFillMask data w h tol = replicate (w * h) 0"
proof -
  have "map (\<lambda>n. if int n \<in> flood_bg data w h tol then 0 else 1) [0..<w * h]
        = map (\<lambda>n. 0::nat) [0..<w * h]"
    by (rule map_cong) (simp_all add: flood_bg_uniform[OF assms])
  then show ?thesis by (simp add: generateFloodFillMask_eq map_replicate_const)
qed

lemma generateGlobalMask_uniform:
  assumes "uniform data w h"
  shows "generateGlobalMask data w h tol = replicate (w * h) 0"
proof -
  have "map (\<lambda>i. if near_bg data tol (int i) then 0 else 1) [0..<w * h]
        = map (\<lambda>n. 0::nat) [0..<w * h]"
    by (rule map_cong) (simp_all add: near_bg_uniform[OF assms])
  then show ?thesis by (simp add: generateGlobalMask_def map_replicate_const)
qed

lemma outer_bg_all_zero:
  assumes n: "n < w * h"
  shows "int n \<in> outer_bg (replicate (w * h) 0) w h"
proof -
  let ?m = "replicate (w * h) (0::nat)"
  from n have w: "0 < w" and h: "0 < h" by (auto intro: Nat.gr0I)
  have z: "rd ?m (int k) = Some 0" if "k < w * h" for k
    using that by (simp add: rd_int)
  have down: "int (y * w + x) \<in> outer_bg ?m w h" if "x < w" "y < h" for x y
    using that(2)
  proof (induction y)
    case 0
    have "x < w * h"
      using that(1) h by (metis less_le_trans mult.right_neutral mult_le_mono2 Suc_leI One_nat_def)
    then have "rd ?m (int x) = Some 0" by (rule z)
    moreover have "int x \<in> set (border_cells w h)"
      using that(1) by (auto simp: border_cells_def)
    ultimately have "int x \<in> hole_seeds ?m w h" by (simp add: hole_seeds_def)
    then show ?case unfolding outer_bg_def by (simp add: reach.start)
  next
    case (Suc y)
    then have i: "int (y * w + x) \<in> outer_bg ?m w h" by simp
    have "Suc y * w + x < Suc y * w + w" using that(1) by simp
    also have "\<dots> = Suc (Suc y) * w" by simp
    also have "\<dots> \<le> h * w" using Suc.prems by (intro mult_le_mono1) simp
    finally have lt: "Suc y * w + x < w * h" by (simp only: mult.commute)
    define j where "j = int (y * w + x)"
    have e: "int (Suc y * w + x) = j + int w" by (simp add: j_def algebra_simps)
    have r: "rd ?m (j + int w) = Some 0" using z[OF lt] by (simp only: e)
    then have b: "0 \<le> j + int w" "j + int w < int (length ?m)"
      by (auto simp: rd_def split: if_splits)
    have g: "\<bar>(j + int w) mod int w - j mod int w\<bar> \<le> 1" by simp
    have "hole_adm ?m w j (j + int w)"
      unfolding hole_adm_def using r b g by blast
    moreover have "j + int w \<in> set [j - 1, j + 1, j - int w, j + int w]" by simp
    moreover have "j \<in> reach (hole_adm ?m w) w (hole_seeds ?m w h)"
      using i by (simp only: j_def outer_bg_def)
    ultimately have "j + int w \<in> reach (hole_adm ?m w) w (hole_seeds ?m w h)"
      by (metis reach.step)
    then show ?case by (simp only: e outer_bg_def)
  qed
  have "n = (n div w) * w + n mod w" by simp
  moreover have "n div w < h" using n w by (simp add: less_mult_imp_div_less mult.commute)
  moreover have "n mod w < w" using w by simp
  ultimately show ?thesis using down[of "n mod w" "n div w"] by simp
qed

lemma fillInternalHoles_all_zero:
  "fillInternalHoles (replicate (w * h) 0) w h = replicate (w * h) 0"
proof -
  let ?m = "replicate (w * h) (0::nat)"
  have "fillInternalHoles ?m w h =
        map (\<lambda>i. if ?m ! i = 0 \<and> int i \<notin> outer_bg ?m w h then 1 else ?m ! i) [0..<length ?m]"
    by (rule fillInternalHoles_eq) simp
  also have "\<dots> = map (\<lambda>i. 0) [0..<length ?m]"
    by (rule map_cong) (simp_all add: outer_bg_all_zero)
  finally show ?thesis by (simp add: map_replicate_const)
qed

lemma fgCells_iff: "fgCells msk = {} \<longleftrightarrow> 1 \<notin> set msk"
  by (auto simp: fgCells_alt in_set_conv_nth)

lemma fgCells_erode: "fgCells (erode msk w h passes) \<subseteq> fgCells msk"
  using erode_foreground[of _ msk w h passes] by (auto simp: fgCells_alt erode_length)

lemma repairedMask_uniform:
  assumes "uniform data w h"
  shows "fgCells (repairedMask data w h config) = {}"
proof -
  define m0 where "m0 = (if cfg_method config = luma_key
                 then generateGlobalMask data w h (cfg_tolerance config)
                 else generateFloodFillMask data w h (cfg_tolerance config))"
  define m1 where "m1 = (if cfg_smartFill config then fillInternalHoles m0 w h else m0)"
  have 0: "m0 = replicate (w * h) 0"
    by (simp add: m0_def generateGlobalMask_uniform[OF assms] generateFloodFillMask_uniform[OF assms])
  have 1: "m1 = replicate (w * h) 0"
    by (simp add: m1_def 0 fillInternalHoles_all_zero)
  have "repairedMask data w h config =
        (if cfg_erosion config > 0 then erode m1 w h (cfg_erosion config) else m1)"
    by (simp add: repairedMask_def m0_def m1_def Let_def)
  moreover have "fgCells m1 = {}" by (simp add: 1 fgCells_alt)
  ultimately show ?thesis using fgCells_erode[of m1 w h "cfg_erosion config"] by auto
qed

lemma length_put4 [simp]: "length (put4 a k r g b al) = length a"
  by (simp add: put4_def)

lemma composite_length:
  "length (composite data msk w minX minY sw sh finalSize offX offY canvas) = length canvas"
proof -
  have inner: "length (fold (\<lambda>x out. if c x then put4 out (d x) (r x) (g x) (b x) 255 else out) xs out)
               = length out" for c d r g b xs and out :: "int list"
    by (induction xs arbitrary: out) auto
  have outer: "length (fold (\<lambda>y out. fold (\<lambda>x out. if c y x then put4 out (d y x) (r y x) (g y x) (b y x) 255 else out) xs out) ys out)
               = length out" for c d r g b xs ys and out :: "int list"
    by (induction ys arbitrary: out) (simp_all add: inner)
  show ?thesis
    unfolding composite_def Let_def by (rule outer)
qed

lemma fold_put4_length:
  "length (fold (\<lambda>i a. if c i then put4 a (d i) r g b al else a) is a0) = length a0"
  by (induction "is" arbitrary: a0) auto

lemma paintBorder_length: "length (paintBorder dilated finalSize) = nat (finalSize * finalSize * 4)"
  by (simp only: paintBorder_def fold_put4_length length_replicate)

lemma canvasOf_length:
  "length (canvasOf msk w bw) = nat (finalSizeOf msk w bw * finalSizeOf msk w bw * 4)"
  by (simp add: canvasOf_def Let_def paintBorder_length)

lemma processSticker_Inl:
  assumes "fgCells (repairedMask data w h config) = {}"
  shows "processSticker data w h config = Inl NoSubjectDetected"
  by (simp add: processSticker_def Let_def cropBounds_empty[OF assms])

lemma processSticker_Inr:
  assumes ne: "fgCells (repairedMask data w h config) \<noteq> {}"
  defines "msk \<equiv> repairedMask data w h config"
  defines "fs \<equiv> finalSizeOf msk w (cfg_borderWidth config)"
  shows "processSticker data w h config =
     Inr \<lparr>sp_width = of_int fs, sp_height = of_int fs,
          sp_image = composite data msk w (Min (fgCols msk w)) (Min (fgRows msk w))
                       (boxW msk w) (boxH msk w) fs
                       ((fs - boxW msk w) div 2) ((fs - boxH msk w) div 2)
                       (canvasOf msk w (cfg_borderWidth config))\<rparr>"
proof -
  have cb: "cropBounds msk w h =
     (Min (fgCols msk w), Max (fgCols msk w), Min (fgRows msk w), Max (fgRows msk w), True)"
    unfolding msk_def by (rule cropBounds_eq[OF ne repairedMask_length])
  show ?thesis
    unfolding processSticker_def msk_def[symmetric] Let_def cb
    by (simp add: fs_def finalSizeOf_def boxW_def boxH_def canvasOf_def Let_def mult.commute)
qed

lemma boxW_pos: "fgCells msk \<noteq> {} \<Longrightarrow> 1 \<le> boxW msk w"
proof -
  assume "fgCells msk \<noteq> {}"
  then have "fgCols msk w \<noteq> {}" "finite (fgCols msk w)" by (simp_all add: fgCols_def fgCells_alt)
  then have "Min (fgCols msk w) \<le> Max (fgCols msk w)" by simp
  then show ?thesis by (simp add: boxW_def)
qed

lemma boxH_pos: "fgCells msk \<noteq> {} \<Longrightarrow> 1 \<le> boxH msk w"
proof -
  assume "fgCells msk \<noteq> {}"
  then have "fgRows msk w \<noteq> {}" "finite (fgRows msk w)" by (simp_all add: fgRows_def fgCells_alt)
  then have "Min (fgRows msk w) \<le> Max (fgRows msk w)" by simp
  then show ?thesis by (simp add: boxH_def)
qed

lemma finalSizeOf_ge: "fgCells msk \<noteq> {} \<Longrightarrow> 81 \<le> finalSizeOf msk w bw"
  using boxW_pos[of msk w] unfolding finalSizeOf_def by (auto simp: max_def)

lemma leak_repaired: "repairedMask leak_img 2 5 plain_config = [0, 0, 1, 0, 0, 1, 1, 0, 0, 0]"
  by code_simp

lemma leak_bounds: "cropBounds [0, 0, 1, 0, 0, 1, 1, 0, 0, 0] 2 5 = (0, 1, 1, 3, True)"
  by code_simp

lemma grey_uniform: "uniform grey2x2 2 2"
  by code_simp

text \<open>
  C2. When the mask after mask generation, optional hole filling and erosion holds no
  foreground pixel, \<open>processSticker\<close> fails with the error and returns no sprite. A sprite
  that is returned comes from a mask with foreground, has a side of at least 81 pixels
  and a non-empty buffer. For a uniform buffer the flood-fill mask is all zero and
  \<open>processSticker\<close> fails, whatever the configuration.
\<close>

theorem processSticker_no_foreground:
  "(1 \<notin> set (repairedMask data w h config) \<longrightarrow>
      processSticker data w h config = Inl NoSubjectDetected) \<and>
   (\<forall>out. processSticker data w h config = Inr out \<longrightarrow>
      1 \<in> set (repairedMask data w h config) \<and>
      81 \<le> sp_width out \<and> 81 \<le> sp_height out \<and> sp_image out \<noteq> []) \<and>
   (uniform data w h \<longrightarrow>
      generateFloodFillMask data w h tol = replicate (w * h) 0 \<and>
      processSticker data w h config = Inl NoSubjectDetected)"
proof (intro conjI allI impI)
  assume "1 \<notin> set (repairedMask data w h config)"
  then show "processSticker data w h config = Inl NoSubjectDetected"
    by (simp add: processSticker_Inl fgCells_iff)
next
  fix out assume o: "processSticker data w h config = Inr out"
  let ?m = "repairedMask data w h config"
  let ?fs = "finalSizeOf ?m w (cfg_borderWidth config)"
  have ne: "fgCells ?m \<noteq> {}"
  proof
    assume "fgCells ?m = {}"
    from processSticker_Inl[OF this] o show False by simp
  qed
  then show "1 \<in> set ?m" by (simp add: fgCells_iff)
  note r = processSticker_Inr[OF ne]
  have fs: "81 \<le> ?fs" by (rule finalSizeOf_ge[OF ne])
  from o r have w: "sp_width out = of_int ?fs" and h: "sp_height out = of_int ?fs"
    and i: "length (sp_image out) = nat (?fs * ?fs * 4)"
    by (auto simp: composite_length canvasOf_length)
  from fs show "81 \<le> sp_width out" "81 \<le> sp_height out" unfolding w h by simp_all
  from fs have "0 < ?fs * ?fs * 4" by simp
  with i show "sp_image out \<noteq> []" by auto
next
  assume u: "uniform data w h"
  show "generateFloodFillMask data w h tol = replicate (w * h) 0"
    by (rule generateFloodFillMask_uniform[OF u])
  show "processSticker data w h config = Inl NoSubjectDetected"
    by (rule processSticker_Inl[OF repairedMask_uniform[OF u]])
qed

theorem processSticker_no_foreground_witness:
  "uniform grey2x2 2 2 \<and>
   1 \<notin> set (repairedMask grey2x2 2 2 plain_config) \<and>
   generateFloodFillMask grey2x2 2 2 10 = replicate (2 * 2) 0 \<and>
   processSticker grey2x2 2 2 plain_config = Inl NoSubjectDetected \<and>
   (\<exists>out. processSticker leak_img 2 5 plain_config = Inr out \<and>
          sp_width out = 83 \<and> sp_height out = 83 \<and> sp_image out \<noteq> [])"
proof -
  have g: "1 \<notin> set (repairedMask grey2x2 2 2 plain_config)"
    using repairedMask_uniform[OF grey_uniform, of plain_config] by (simp add: fgCells_iff)
  have "\<exists>out. processSticker leak_img 2 5 plain_config = Inr out \<and>
          sp_width out = 83 \<and> sp_height out = 83"
    unfolding processSticker_def Let_def leak_repaired leak_bounds
    by (simp add: plain_config_def)
  then obtain out where o: "processSticker leak_img 2 5 plain_config = Inr out"
    "sp_width out = 83" "sp_height out = 83" by blast
  from processSticker_no_foreground[of grey2x2 2 2 plain_config 10] grey_uniform g
    processSticker_no_foreground[of leak_img 2 5 plain_config 10] o
  show ?thesis by auto
qed

subsection \<open>The drawing loop\<close>

lemma fold_rows:
  "fold f (concat (map (\<lambda>y. map (\<lambda>x. (y, x)) xs) ys)) s =
     fold (\<lambda>y s. fold (\<lambda>x s. f (y, x) s) xs s) ys s"
  by (induction ys arbitrary: s) (simp_all add: fold_map comp_def)

lemma composite_fold:
  "composite data msk w minX minY sw sh finalSize offX offY canvas =
     fold (cwrite data msk w minX minY finalSize offX offY)
       (concat (map (\<lambda>y. map (\<lambda>x. (y, x)) [0..<nat sw]) [0..<nat sh])) canvas"
  by (simp add: composite_def fold_rows cwrite_def)

lemma rd_put4_other:
  "p < d \<or> d + 3 < p \<Longrightarrow> rd (put4 a d r g b al) p = rd a p"
  by (auto simp: put4_def rd_wr)

lemma rd_put4_in:
  assumes "0 \<le> d" "d + 3 < int (length a)"
  shows "rd (put4 a d r g b al) d = Some r"
    and "rd (put4 a d r g b al) (d + 1) = Some g"
    and "rd (put4 a d r g b al) (d + 2) = Some b"
    and "rd (put4 a d r g b al) (d + 3) = Some al"
  using assms by (auto simp: put4_def rd_wr)

lemma fold_cwrite_length:
  "length (fold (cwrite data msk w minX minY fs offX offY) qs out) = length out"
  by (induction qs arbitrary: out) (auto simp: cwrite_def Let_def)

lemma fold_cwrite_other:
  assumes "\<forall>q\<in>set qs. p < dstOf fs offX offY q \<or> dstOf fs offX offY q + 3 < p"
  shows "rd (fold (cwrite data msk w minX minY fs offX offY) qs out) p = rd out p"
  using assms
proof (induction qs arbitrary: out)
  case Nil
  then show ?case by simp
next
  case (Cons a qs)
  have "rd (cwrite data msk w minX minY fs offX offY a out) p = rd out p"
    using Cons.prems by (auto simp: cwrite_def Let_def dstOf_def rd_put4_other)
  with Cons show ?case by simp
qed

lemma fold_cwrite_hit:
  fixes data msk w minX minY fs offX offY q
  defines "src \<equiv> (minY + int (fst q)) * int w + (minX + int (snd q))"
  defines "d \<equiv> dstOf fs offX offY q"
  defines "f \<equiv> cwrite data msk w minX minY fs offX offY"
  assumes "q \<in> set qs"
    and m: "rd msk src = Some 1"
    and d0: "0 \<le> d" and d3: "d + 3 < int (length out)"
    and sep: "\<forall>q'\<in>set qs. q' \<noteq> q \<longrightarrow>
           dstOf fs offX offY q' + 3 < d \<or> d + 3 < dstOf fs offX offY q'"
  shows "rd (fold f qs out) d = Some (channel data (src * 4)) \<and>
         rd (fold f qs out) (d + 1) = Some (channel data (src * 4 + 1)) \<and>
         rd (fold f qs out) (d + 2) = Some (channel data (src * 4 + 2)) \<and>
         rd (fold f qs out) (d + 3) = Some 255"
  using assms(4,7,8)
proof (induction qs arbitrary: out)
  case Nil
  then show ?case by simp
next
  case (Cons a qs)
  have len: "length (f a out) = length out" by (simp add: f_def cwrite_def Let_def)
  show ?case
  proof (cases "q \<in> set qs")
    case True
    from Cons.IH[OF True, of "f a out"] Cons.prems len show ?thesis by simp
  next
    case False
    with Cons.prems(1) have a: "a = q" by simp
    have o: "f a out = put4 out d (channel data (src * 4))
                (channel data (src * 4 + 1)) (channel data (src * 4 + 2)) 255"
      using m by (simp add: a f_def cwrite_def Let_def dstOf_def src_def d_def)
    have other: "rd (fold f qs (f a out)) p = rd (f a out) p"
      if "d \<le> p" "p \<le> d + 3" for p
      unfolding f_def
    proof (rule fold_cwrite_other, rule ballI)
      fix q' assume q': "q' \<in> set qs"
      with False have "q' \<noteq> q" by auto
      with Cons.prems(3) q' have "dstOf fs offX offY q' + 3 < d \<or>
           d + 3 < dstOf fs offX offY q'" by simp
      with that show "p < dstOf fs offX offY q' \<or> dstOf fs offX offY q' + 3 < p" by linarith
    qed
    have "rd (fold f (a # qs) out) p = rd (f a out) p" if "d \<le> p" "p \<le> d + 3" for p
      using other[OF that] by simp
    then show ?thesis
      using rd_put4_in[OF d0 Cons.prems(2), of "channel data (src * 4)"
          "channel data (src * 4 + 1)" "channel data (src * 4 + 2)" 255]
      unfolding o by simp
  qed
qed

lemma in_rows:
  "(y, x) \<in> set (concat (map (\<lambda>y. map (\<lambda>x. (y, x)) xs) ys)) \<longleftrightarrow> y \<in> set ys \<and> x \<in> set xs"
  by (induction ys) auto

lemma dst_separate:
  fixes fs X Y X' Y' :: int
  assumes "0 \<le> X" "X < fs" "0 \<le> X'" "X' < fs" "(Y, X) \<noteq> (Y', X')"
  shows "(Y' * fs + X') * 4 + 3 < (Y * fs + X) * 4 \<or> (Y * fs + X) * 4 + 3 < (Y' * fs + X') * 4"
proof -
  have fs: "0 < fs" using assms by linarith
  have "Y * fs + X \<noteq> Y' * fs + X'"
  proof
    assume e: "Y * fs + X = Y' * fs + X'"
    have "(Y * fs + X) div fs = Y" "(Y * fs + X) mod fs = X"
      using divmod_decomp[OF fs assms(1,2), of Y] by simp_all
    moreover have "(Y' * fs + X') div fs = Y'" "(Y' * fs + X') mod fs = X'"
      using divmod_decomp[OF fs assms(3,4), of Y'] by simp_all
    ultimately have "Y = Y'" "X = X'" using e by simp_all
    with assms(5) show False by simp
  qed
  moreover have "a \<noteq> b \<Longrightarrow> b * 4 + 3 < a * 4 \<or> a * 4 + 3 < b * 4" for a b :: int
    by presburger
  ultimately show ?thesis by blast
qed

lemma centred_offset:
  fixes fs s :: int
  assumes "s \<le> fs"
  shows "0 \<le> (fs - s) div 2" "(fs - s) div 2 + s \<le> fs"
  using assms by simp_all

text \<open>
  C7. When \<open>processSticker\<close> succeeds, the output is a square of side
  \<open>finalSize = max boxW boxH + 2 * max (borderWidth + 20) 40\<close>, where \<open>boxW\<close> and \<open>boxH\<close>
  are the width and height of the tight bounding box of the foreground of the repaired
  mask, and its buffer holds \<open>finalSize * finalSize\<close> RGBA pixels. The subject is placed at
  the offsets \<open>offX = (finalSize - boxW) div 2\<close>, \<open>offY = (finalSize - boxH) div 2\<close>: the
  foreground pixel at column \<open>c\<close>, row \<open>r\<close> of the source is found, opaque and with its
  source colour, at column \<open>offX + (c - minX)\<close>, row \<open>offY + (r - minY)\<close> of the output.
\<close>

theorem processSticker_square_centred:
  assumes ok: "processSticker data w h config = Inr out"
  shows
    "let msk = repairedMask data w h config;
         finalSize = max (boxW msk w) (boxH msk w) + 2 * max (cfg_borderWidth config + 20) 40;
         offX = (finalSize - boxW msk w) div 2;
         offY = (finalSize - boxH msk w) div 2
     in sp_width out = of_int finalSize \<and> sp_height out = of_int finalSize \<and>
        length (sp_image out) = nat (finalSize * finalSize * 4) \<and>
        (\<forall>i\<in>fgCells msk.
           let X = offX + (int i mod int w - Min (fgCols msk w));
               Y = offY + (int i div int w - Min (fgRows msk w));
               p = (Y * finalSize + X) * 4
           in offX \<le> X \<and> X < offX + boxW msk w \<and> offY \<le> Y \<and> Y < offY + boxH msk w \<and>
              rd (sp_image out) p = Some (channel data (int i * 4)) \<and>
              rd (sp_image out) (p + 1) = Some (channel data (int i * 4 + 1)) \<and>
              rd (sp_image out) (p + 2) = Some (channel data (int i * 4 + 2)) \<and>
              rd (sp_image out) (p + 3) = Some 255)"
proof -
  define msk where "msk = repairedMask data w h config"
  define fs where "fs = max (boxW msk w) (boxH msk w) + 2 * max (cfg_borderWidth config + 20) 40"
  define offX where "offX = (fs - boxW msk w) div 2"
  define offY where "offY = (fs - boxH msk w) div 2"
  define minX where "minX = Min (fgCols msk w)"
  define minY where "minY = Min (fgRows msk w)"
  define qs where "qs = concat (map (\<lambda>y. map (\<lambda>x. (y, x)) [0..<nat (boxW msk w)]) [0..<nat (boxH msk w)])"
  define canvas where "canvas = canvasOf msk w (cfg_borderWidth config)"
  have ne: "fgCells msk \<noteq> {}"
  proof
    assume "fgCells msk = {}"
    from processSticker_Inl[OF this[unfolded msk_def]] ok show False by simp
  qed
  have len: "length msk = w * h" unfolding msk_def by (rule repairedMask_length)
  have fs': "fs = finalSizeOf msk w (cfg_borderWidth config)" by (simp add: fs_def finalSizeOf_def)
  have out: "out = \<lparr>sp_width = of_int fs, sp_height = of_int fs,
          sp_image = fold (cwrite data msk w minX minY fs offX offY) qs canvas\<rparr>"
    using processSticker_Inr[OF ne[unfolded msk_def]] ok
    by (simp add: msk_def[symmetric] fs'[symmetric] offX_def offY_def minX_def minY_def
        composite_fold qs_def canvas_def)
  have clen: "length canvas = nat (fs * fs * 4)"
    by (simp add: canvas_def canvasOf_length fs')
  have ilen: "length (sp_image out) = nat (fs * fs * 4)"
    by (simp add: out fold_cwrite_length clen)
  have sw: "1 \<le> boxW msk w" and sh: "1 \<le> boxH msk w"
    using boxW_pos[OF ne] boxH_pos[OF ne] by simp_all
  have "boxW msk w \<le> fs" "boxH msk w \<le> fs" by (auto simp: fs_def max_def)
  then have offs: "0 \<le> offX" "offX + boxW msk w \<le> fs" "0 \<le> offY" "offY + boxH msk w \<le> fs"
    unfolding offX_def offY_def by (simp_all add: centred_offset)
  have fs0: "0 < fs" using sw offs by linarith
  from ne len have w: "0 < w" by (auto simp: fgCells_alt intro: Nat.gr0I)
  have finc: "finite (fgCols msk w)" and finr: "finite (fgRows msk w)"
    by (simp_all add: fgCols_def fgRows_def fgCells_alt)
  have cell: "offX \<le> offX + (int i mod int w - minX) \<and>
              offX + (int i mod int w - minX) < offX + boxW msk w \<and>
              offY \<le> offY + (int i div int w - minY) \<and>
              offY + (int i div int w - minY) < offY + boxH msk w \<and>
              rd (sp_image out) (((offY + (int i div int w - minY)) * fs
                   + (offX + (int i mod int w - minX))) * 4) = Some (channel data (int i * 4)) \<and>
              rd (sp_image out) (((offY + (int i div int w - minY)) * fs
                   + (offX + (int i mod int w - minX))) * 4 + 1) = Some (channel data (int i * 4 + 1)) \<and>
              rd (sp_image out) (((offY + (int i div int w - minY)) * fs
                   + (offX + (int i mod int w - minX))) * 4 + 2) = Some (channel data (int i * 4 + 2)) \<and>
              rd (sp_image out) (((offY + (int i div int w - minY)) * fs
                   + (offX + (int i mod int w - minX))) * 4 + 3) = Some 255"
    if i: "i \<in> fgCells msk" for i
  proof -
    define col row where "col = int i mod int w" and "row = int i div int w"
    have "col \<in> fgCols msk w" "row \<in> fgRows msk w"
      using i by (simp_all add: col_def row_def fgCols_def fgRows_def)
    then have c: "minX \<le> col" "col \<le> Max (fgCols msk w)"
      and r: "minY \<le> row" "row \<le> Max (fgRows msk w)"
      using finc finr by (simp_all add: minX_def minY_def)
    define x y where "x = nat (col - minX)" and "y = nat (row - minY)"
    have x: "int x = col - minX" "x < nat (boxW msk w)"
      using c by (simp_all add: x_def boxW_def minX_def)
    have y: "int y = row - minY" "y < nat (boxH msk w)"
      using r by (simp_all add: y_def boxH_def minY_def)
    have q: "(y, x) \<in> set qs" using x(2) y(2) by (simp only: qs_def in_rows) simp
    have "row * int w + col = int i" by (simp add: col_def row_def)
    then have src: "(minY + int (fst (y, x))) * int w + (minX + int (snd (y, x))) = int i"
      by (simp add: x y)
    have m: "rd msk ((minY + int (fst (y, x))) * int w + (minX + int (snd (y, x)))) = Some 1"
      unfolding src using i by (simp add: rd_int fgCells_alt)
    define X Y where "X = offX + int x" and "Y = offY + int y"
    have X: "0 \<le> X" "X < fs" and Y: "0 \<le> Y" "Y < fs"
      using x y offs sw sh by (simp_all add: X_def Y_def)
    have d: "dstOf fs offX offY (y, x) = (Y * fs + X) * 4" by (simp add: dstOf_def X_def Y_def)
    have d0: "0 \<le> dstOf fs offX offY (y, x)" unfolding d using X Y fs0 by simp
    have "Y * fs \<le> (fs - 1) * fs" using Y fs0 by (intro mult_right_mono) simp_all
    then have "(Y * fs + X) * 4 + 3 < fs * fs * 4" using X by (simp add: algebra_simps)
    then have d3: "dstOf fs offX offY (y, x) + 3 < int (length canvas)"
      unfolding d clen by simp
    have sep: "\<forall>q'\<in>set qs. q' \<noteq> (y, x) \<longrightarrow>
           dstOf fs offX offY q' + 3 < dstOf fs offX offY (y, x) \<or>
           dstOf fs offX offY (y, x) + 3 < dstOf fs offX offY q'"
    proof (intro ballI impI)
      fix q' assume q': "q' \<in> set qs" "q' \<noteq> (y, x)"
      obtain y' x' where e: "q' = (y', x')" by force
      with q'(1) have b: "x' < nat (boxW msk w)" by (simp only: qs_def in_rows) simp
      have X': "0 \<le> offX + int x'" "offX + int x' < fs" using b offs by simp_all
      from q'(2) e have "(Y, X) \<noteq> (offY + int y', offX + int x')" by (auto simp: X_def Y_def)
      from dst_separate[OF X X' this]
      show "dstOf fs offX offY q' + 3 < dstOf fs offX offY (y, x) \<or>
           dstOf fs offX offY (y, x) + 3 < dstOf fs offX offY q'"
        unfolding d by (simp add: e dstOf_def)
    qed
    have pos: "offX + (col - minX) = X" "offY + (row - minY) = Y"
      by (simp_all add: X_def Y_def x y)
    have bx: "0 \<le> col - minX" "col - minX < boxW msk w" "0 \<le> row - minY" "row - minY < boxH msk w"
      using c r by (simp_all add: boxW_def boxH_def minX_def minY_def)
    from fold_cwrite_hit[OF q m d0 d3 sep, of data]
    show ?thesis
      unfolding src d col_def[symmetric] row_def[symmetric] pos
      using bx by (simp add: out X_def Y_def x y)
  qed
  show ?thesis
    unfolding Let_def msk_def[symmetric] fs_def[symmetric] offX_def[symmetric] offY_def[symmetric]
      minX_def[symmetric] minY_def[symmetric]
    using ilen cell by (simp add: out)
qed

lemma leak_box:
  "boxW [0, 0, 1, 0, 0, 1, 1, 0, 0, 0] 2 = 2"
  "boxH [0, 0, 1, 0, 0, 1, 1, 0, 0, 0] 2 = 3"
  "Min (fgCols [0, 0, 1, 0, 0, 1, 1, 0, 0, 0] 2) = 0"
  "Min (fgRows [0, 0, 1, 0, 0, 1, 1, 0, 0, 0] 2) = 1"
  "2 \<in> fgCells [0, 0, 1, 0, 0, 1, 1, 0, 0, 0]"
  by code_simp+

lemma leak_channels:
  "channel leak_img 8 = 255" "channel leak_img 9 = 255" "channel leak_img 10 = 255"
  by code_simp+

theorem processSticker_square_centred_witness:
  "\<exists>out. processSticker leak_img 2 5 plain_config = Inr out \<and>
     sp_width out = 83 \<and> sp_height out = 83 \<and> length (sp_image out) = 27556 \<and>
     rd (sp_image out) 13440 = Some 255 \<and> rd (sp_image out) 13441 = Some 255 \<and>
     rd (sp_image out) 13442 = Some 255 \<and> rd (sp_image out) 13443 = Some 255"
proof -
  have "\<exists>out. processSticker leak_img 2 5 plain_config = Inr out"
    unfolding processSticker_def Let_def leak_repaired leak_bounds
    by (simp add: plain_config_def)
  then obtain out where o: "processSticker leak_img 2 5 plain_config = Inr out" by blast
  have bw: "cfg_borderWidth plain_config = 0" by (simp add: plain_config_def)
  note t = processSticker_square_centred[OF o, unfolded Let_def leak_repaired leak_box(1-4) bw]
  from t have a: "sp_width out = 83" "sp_height out = 83" "length (sp_image out) = 27556"
    by simp_all
  from t have "\<forall>i\<in>fgCells [0, 0, 1, 0, 0, 1, 1, 0, 0, 0].
      rd (sp_image out) (((80 div 2 + (int i div 2 - 1)) * 83 + (81 div 2 + (int i mod 2 - 0))) * 4)
        = Some (channel leak_img (int i * 4)) \<and>
      rd (sp_image out) (((80 div 2 + (int i div 2 - 1)) * 83 + (81 div 2 + (int i mod 2 - 0))) * 4 + 1)
        = Some (channel leak_img (int i * 4 + 1)) \<and>
      rd (sp_image out) (((80 div 2 + (int i div 2 - 1)) * 83 + (81 div 2 + (int i mod 2 - 0))) * 4 + 2)
        = Some (channel leak_img (int i * 4 + 2)) \<and>
      rd (sp_image out) (((80 div 2 + (int i div 2 - 1)) * 83 + (81 div 2 + (int i mod 2 - 0))) * 4 + 3)
        = Some 255"
    by simp
  from bspec[OF this leak_box(5)] have
    "rd (sp_image out) 13440 = Some 255 \<and> rd (sp_image out) 13441 = Some 255 \<and>
     rd (sp_image out) 13442 = Some 255 \<and> rd (sp_image out) 13443 = Some 255"
    by (simp add: leak_channels)
  with o a show ?thesis by blast
qed

section \<open>detectSegments: grid mode with explicit lines\<close>

text \<open>
  C3. The Rects of grid mode with explicit lines are claimed to tile the buffer exactly,
  for all lines in \<open>[0, 1]\<close>. The code adds 0 and the width to the cuts and pairs adjacent
  cuts, but rounds the origin and the extent of every Rect on their own, so the Rects are
  no tiling as soon as a cut is not a whole pixel:
  \<^item> on a 3 x 3 buffer with the lines 1/2 and 1/2 (the cutter's initial lines) the cuts
    are 0, 1.5, 3 on both axes and the four Rects are 2 x 2: the areas add up to 16, not
    9, and the Rects at origin 2 end at 4, outside the buffer;
  \<^item> on a 5 x 1 buffer with the lines 1/4, 1/2, 3/4 (four columns) the cuts are 0, 1.25,
    2.5, 3.75, 5 and the Rects start at 0, 1, 3, 4 with width 1: pixel 2 lies in no Rect;
  \<^item> on an 8 x 1 buffer with the lines 3/16 and 3/8 the cuts are 0, 1.5, 3, 8 and
    pixel 3 lies in two Rects.
  All cuts here are exact in double precision.
\<close>

theorem customGrid_rounding_breaks_tiling:
  "detectSegments (replicate 36 0) 3 3 (grid_options [1 / 2] [1 / 2]) =
     [\<lparr>rect_x = 0, rect_y = 0, rect_w = 2, rect_h = 2\<rparr>,
      \<lparr>rect_x = 2, rect_y = 0, rect_w = 2, rect_h = 2\<rparr>,
      \<lparr>rect_x = 0, rect_y = 2, rect_w = 2, rect_h = 2\<rparr>,
      \<lparr>rect_x = 2, rect_y = 2, rect_w = 2, rect_h = 2\<rparr>] \<and>
   sum_list (map rectArea
      (detectSegments (replicate 36 0) 3 3 (grid_options [1 / 2] [1 / 2]))) = 16 \<and>
   detectSegments (replicate 20 0) 5 1 (grid_options [1 / 4, 1 / 2, 3 / 4] []) =
     [\<lparr>rect_x = 0, rect_y = 0, rect_w = 1, rect_h = 1\<rparr>,
      \<lparr>rect_x = 1, rect_y = 0, rect_w = 1, rect_h = 1\<rparr>,
      \<lparr>rect_x = 3, rect_y = 0, rect_w = 1, rect_h = 1\<rparr>,
      \<lparr>rect_x = 4, rect_y = 0, rect_w = 1, rect_h = 1\<rparr>] \<and>
   filter (\<lambda>r. inRect r 2 0)
      (detectSegments (replicate 20 0) 5 1 (grid_options [1 / 4, 1 / 2, 3 / 4] [])) = [] \<and>
   detectSegments (replicate 32 0) 8 1 (grid_options [3 / 16, 3 / 8] []) =
     [\<lparr>rect_x = 0, rect_y = 0, rect_w = 2, rect_h = 1\<rparr>,
      \<lparr>rect_x = 2, rect_y = 0, rect_w = 2, rect_h = 1\<rparr>,
      \<lparr>rect_x = 3, rect_y = 0, rect_w = 5, rect_h = 1\<rparr>] \<and>
   length (filter (\<lambda>r. inRect r 3 0)
      (detectSegments (replicate 32 0) 8 1 (grid_options [3 / 16, 3 / 8] []))) = 2"
  by (simp add: detectSegments_def grid_options_def customGridRects_def js_round_def
      rectArea_def inRect_def upt_rec)

text \<open>
  Where no rounding takes place the Rects do tile, as the rest of this section shows: the
  pairing of adjacent cuts is a partition, and the defect lies in the rounding alone.
\<close>

lemma adjacent_zip:
  "map (\<lambda>c. f (zs ! c) (zs ! (c + 1))) [0..<length zs - 1] = map (\<lambda>(a, b). f a b) (zip zs (tl zs))"
  by (rule nth_equalityI) (auto simp: nth_tl)

lemma customGridRects_zip:
  "customGridRects width height g =
     concat (map (\<lambda>(y1, y2). map (\<lambda>(x1, x2).
         \<lparr>rect_x = of_int (js_round x1), rect_y = of_int (js_round y1),
          rect_w = of_int (js_round (x2 - x1)), rect_h = of_int (js_round (y2 - y1))\<rparr>)
       (zip (cuts width (xLines g)) (tl (cuts width (xLines g)))))
       (zip (cuts height (yLines g)) (tl (cuts height (yLines g)))))"
proof -
  let ?xs = "cuts width (xLines g)" and ?ys = "cuts height (yLines g)"
  let ?R = "\<lambda>y1 y2 x1 x2. \<lparr>rect_x = of_int (js_round x1), rect_y = real_of_int (js_round y1),
          rect_w = of_int (js_round (x2 - x1)), rect_h = of_int (js_round (y2 - y1))\<rparr>"
  have "customGridRects width height g =
        concat (map (\<lambda>r. map (\<lambda>c. ?R (?ys ! r) (?ys ! (r + 1)) (?xs ! c) (?xs ! (c + 1)))
           [0..<length ?xs - 1]) [0..<length ?ys - 1])"
    by (simp add: customGridRects_def cuts_def Let_def)
  also have "\<dots> = concat (map (\<lambda>r. map (\<lambda>(x1, x2). ?R (?ys ! r) (?ys ! (r + 1)) x1 x2)
           (zip ?xs (tl ?xs))) [0..<length ?ys - 1])"
    by (simp only: adjacent_zip[of "\<lambda>a b. ?R _ _ a b" ?xs])
  also have "\<dots> = concat (map (\<lambda>(y1, y2). map (\<lambda>(x1, x2). ?R y1 y2 x1 x2)
           (zip ?xs (tl ?xs))) (zip ?ys (tl ?ys)))"
    using adjacent_zip[of "\<lambda>y1 y2. map (\<lambda>(x1, x2). ?R y1 y2 x1 x2) (zip ?xs (tl ?xs))" ?ys]
    by simp
  finally show ?thesis .
qed

lemma telescope:
  fixes zs :: "real list"
  assumes "zs \<noteq> []"
  shows "sum_list (map (\<lambda>(a, b). b - a) (zip zs (tl zs))) = last zs - hd zs"
  using assms
proof (induction zs rule: list_nonempty_induct)
  case (single x)
  then show ?case by simp
next
  case (cons x xs)
  then obtain y ys where xs: "xs = y # ys" by (cases xs) auto
  from cons.IH show ?case by (simp add: xs)
qed

lemma unique_gap:
  fixes zs :: "real list"
  assumes "sorted zs" "zs \<noteq> []" "hd zs \<le> p" "p < last zs"
  shows "length (filter (\<lambda>(a, b). a \<le> p \<and> p < b) (zip zs (tl zs))) = 1"
  using assms(2,1,3,4)
proof (induction zs rule: list_nonempty_induct)
  case (single x)
  then show ?case by simp
next
  case (cons x xs)
  then obtain y ys where xs: "xs = y # ys" by (cases xs) auto
  show ?case
  proof (cases "p < y")
    case True
    have "\<not> (a \<le> p \<and> p < b)" if "(a, b) \<in> set (zip xs (tl xs))" for a b
    proof -
      from that have "a \<in> set xs" by (rule set_zip_leftD)
      with cons.prems(1) have "y \<le> a" by (auto simp: xs)
      with True show ?thesis by simp
    qed
    then have "filter (\<lambda>(a, b). a \<le> p \<and> p < b) (zip xs (tl xs)) = []"
      by (auto simp: filter_empty_conv)
    with True cons.prems(2) show ?thesis by (simp add: xs)
  next
    case False
    then have "hd xs \<le> p" by (simp add: xs)
    moreover have "sorted xs" using cons.prems(1) by simp
    moreover have "p < last xs" using cons.prems(3) cons.hyps by simp
    ultimately have "length (filter (\<lambda>(a, b). a \<le> p \<and> p < b) (zip xs (tl xs))) = 1"
      by (intro cons.IH)
    with False show ?thesis by (simp add: xs)
  qed
qed

lemma cuts_props:
  assumes "whole_lines n ps"
  shows "sorted (cuts n ps)" "cuts n ps \<noteq> []" "hd (cuts n ps) = 0" "last (cuts n ps) = real n"
    "\<forall>z\<in>set (cuts n ps). z \<in> \<int>"
proof -
  let ?L = "[0] @ map (\<lambda>p. p * real n) ps @ [real n]"
  have set: "set (cuts n ps) = set ?L" unfolding cuts_def by (rule set_sort)
  show s: "sorted (cuts n ps)" unfolding cuts_def by (rule sorted_sort)
  have "length (cuts n ps) = length ?L" unfolding cuts_def by (rule length_sort)
  then show ne: "cuts n ps \<noteq> []" by auto
  have rng: "0 \<le> z \<and> z \<le> real n" if "z \<in> set (cuts n ps)" for z
  proof -
    from that have "z = 0 \<or> z = real n \<or> (\<exists>p\<in>set ps. z = p * real n)"
      unfolding set by auto
    moreover have "0 \<le> p * real n \<and> p * real n \<le> real n" if "p \<in> set ps" for p
    proof -
      from that assms have p: "0 \<le> p" "p \<le> 1" by (auto simp: whole_lines_def)
      then have "p * real n \<le> 1 * real n" by (intro mult_right_mono) simp_all
      with p show ?thesis by simp
    qed
    ultimately show ?thesis by auto
  qed
  have ends: "hd (cuts n ps) \<le> z \<and> z \<le> last (cuts n ps)" if "z \<in> set (cuts n ps)" for z
  proof -
    from that obtain k where k: "k < length (cuts n ps)" "z = cuts n ps ! k"
      by (auto simp: in_set_conv_nth)
    have "cuts n ps ! 0 \<le> cuts n ps ! k" using s k(1) by (intro sorted_nth_mono) simp_all
    moreover have "cuts n ps ! k \<le> cuts n ps ! (length (cuts n ps) - 1)"
      using s k(1) by (intro sorted_nth_mono) simp_all
    ultimately show ?thesis using ne k(2) by (simp add: hd_conv_nth last_conv_nth)
  qed
  have "hd (cuts n ps) \<in> set (cuts n ps)" "last (cuts n ps) \<in> set (cuts n ps)"
    using ne by simp_all
  moreover have "0 \<in> set (cuts n ps)" "real n \<in> set (cuts n ps)" unfolding set by simp_all
  ultimately show "hd (cuts n ps) = 0" "last (cuts n ps) = real n"
    using rng ends by (force intro: antisym)+
  show "\<forall>z\<in>set (cuts n ps). z \<in> \<int>"
    unfolding set using assms by (auto simp: whole_lines_def)
qed

lemma js_round_int: "z \<in> \<int> \<Longrightarrow> real_of_int (js_round z) = z"
proof -
  assume "z \<in> \<int>"
  then obtain k :: int where "z = of_int k" by (auto elim: Ints_cases)
  then show ?thesis by (simp add: js_round_def)
qed

lemma customGridRects_pairs:
  "customGridRects width height g =
     concat (map (\<lambda>q. map (\<lambda>p.
         \<lparr>rect_x = of_int (js_round (fst p)), rect_y = of_int (js_round (fst q)),
          rect_w = of_int (js_round (snd p - fst p)), rect_h = of_int (js_round (snd q - fst q))\<rparr>)
       (zip (cuts width (xLines g)) (tl (cuts width (xLines g)))))
       (zip (cuts height (yLines g)) (tl (cuts height (yLines g)))))"
  by (simp only: customGridRects_zip case_prod_unfold)

lemma cuts_pairs_whole:
  assumes "whole_lines n ps" "p \<in> set (zip (cuts n ps) (tl (cuts n ps)))"
  shows "fst p \<in> \<int>" "snd p \<in> \<int>"
proof -
  obtain a b where p: "p = (a, b)" by force
  with assms(2) have "a \<in> set (cuts n ps)" "b \<in> set (tl (cuts n ps))"
    by (auto dest: set_zip_leftD set_zip_rightD)
  moreover have "set (tl (cuts n ps)) \<subseteq> set (cuts n ps)"
    using cuts_props(2)[OF assms(1)] by (auto dest: list.set_sel(2))
  ultimately show "fst p \<in> \<int>" "snd p \<in> \<int>"
    using cuts_props(5)[OF assms(1)] p by auto
qed

lemma customGridRects_whole:
  assumes wx: "whole_lines width (xLines g)" and wy: "whole_lines height (yLines g)"
  shows "customGridRects width height g =
     concat (map (\<lambda>q. map (\<lambda>p.
         \<lparr>rect_x = fst p, rect_y = fst q, rect_w = snd p - fst p, rect_h = snd q - fst q\<rparr>)
       (zip (cuts width (xLines g)) (tl (cuts width (xLines g)))))
       (zip (cuts height (yLines g)) (tl (cuts height (yLines g)))))"
proof -
  let ?XP = "zip (cuts width (xLines g)) (tl (cuts width (xLines g)))"
  let ?YP = "zip (cuts height (yLines g)) (tl (cuts height (yLines g)))"
  have "map (\<lambda>q. map (\<lambda>p.
         \<lparr>rect_x = real_of_int (js_round (fst p)), rect_y = real_of_int (js_round (fst q)),
          rect_w = real_of_int (js_round (snd p - fst p)),
          rect_h = real_of_int (js_round (snd q - fst q))\<rparr>) ?XP) ?YP
     = map (\<lambda>q. map (\<lambda>p.
         \<lparr>rect_x = fst p, rect_y = fst q, rect_w = snd p - fst p, rect_h = snd q - fst q\<rparr>) ?XP) ?YP"
  proof (rule map_cong[OF refl], rule map_cong[OF refl])
    fix q p assume "q \<in> set ?YP" "p \<in> set ?XP"
    then have "fst q \<in> \<int>" "snd q \<in> \<int>" "fst p \<in> \<int>" "snd p \<in> \<int>"
      using cuts_pairs_whole[OF wx] cuts_pairs_whole[OF wy] by blast+
    then show "\<lparr>rect_x = real_of_int (js_round (fst p)), rect_y = real_of_int (js_round (fst q)),
          rect_w = real_of_int (js_round (snd p - fst p)),
          rect_h = real_of_int (js_round (snd q - fst q))\<rparr>
        = \<lparr>rect_x = fst p, rect_y = fst q, rect_w = snd p - fst p, rect_h = snd q - fst q\<rparr>"
      by (simp add: js_round_int)
  qed
  then show ?thesis by (simp only: customGridRects_pairs)
qed

lemma sum_grid:
  fixes u v :: "'a \<Rightarrow> real"
  assumes "\<And>p q. f (G p q) = u p * v q"
  shows "sum_list (map f (concat (map (\<lambda>q. map (\<lambda>p. G p q) ps) qs)))
         = sum_list (map u ps) * sum_list (map v qs)"
proof (induction qs)
  case Nil
  then show ?case by simp
next
  case (Cons q qs)
  have "sum_list (map f (map (\<lambda>p. G p q) ps)) = sum_list (map u ps) * v q"
    by (simp add: assms comp_def sum_list_mult_const)
  with Cons show ?case by (simp add: algebra_simps)
qed

lemma count_grid:
  assumes "\<And>p q. P (G p q) \<longleftrightarrow> Px p \<and> Py q"
  shows "length (filter P (concat (map (\<lambda>q. map (\<lambda>p. G p q) ps) qs)))
         = length (filter Px ps) * length (filter Py qs)"
proof (induction qs)
  case Nil
  then show ?case by simp
next
  case (Cons q qs)
  have "length (filter P (map (\<lambda>p. G p q) ps)) = (if Py q then length (filter Px ps) else 0)"
    by (simp add: filter_map comp_def assms)
  with Cons show ?case by simp
qed

text \<open>
  When every line lies in \<open>[0, 1]\<close> and projects onto a whole pixel position (\<open>p * width\<close>
  and \<open>p * height\<close> are integers), the Rects of grid mode with explicit lines tile the
  buffer exactly: their areas add up to \<open>width * height\<close> and every pixel lies in exactly one
  Rect of the list.
\<close>

theorem customGrid_tiles_whole_pixel_lines:
  assumes "opt_mode options = grid" and "opt_customGrid options = Some g"
    and wx: "whole_lines width (xLines g)" and wy: "whole_lines height (yLines g)"
  shows "sum_list (map rectArea (detectSegments data width height options))
           = real width * real height \<and>
         (\<forall>px<width. \<forall>py<height.
            length (filter (\<lambda>r. inRect r px py) (detectSegments data width height options)) = 1)"
proof -
  let ?xs = "cuts width (xLines g)" and ?ys = "cuts height (yLines g)"
  let ?XP = "zip ?xs (tl ?xs)" and ?YP = "zip ?ys (tl ?ys)"
  let ?G = "\<lambda>p q. \<lparr>rect_x = fst p, rect_y = fst q, rect_w = snd p - fst p, rect_h = snd q - fst q\<rparr>"
  have d: "detectSegments data width height options =
           concat (map (\<lambda>q. map (\<lambda>p. ?G p q) ?XP) ?YP)"
    using assms(1,2) by (simp add: detectSegments_def customGridRects_whole[OF wx wy])
  have tx: "sum_list (map (\<lambda>p. snd p - fst p) ?XP) = real width"
    using telescope[OF cuts_props(2)[OF wx]] cuts_props(3,4)[OF wx] by (simp add: case_prod_unfold)
  have ty: "sum_list (map (\<lambda>q. snd q - fst q) ?YP) = real height"
    using telescope[OF cuts_props(2)[OF wy]] cuts_props(3,4)[OF wy] by (simp add: case_prod_unfold)
  have area: "sum_list (map rectArea (detectSegments data width height options))
              = real width * real height"
    unfolding d
    using sum_grid[of rectArea ?G "\<lambda>p. snd p - fst p" "\<lambda>q. snd q - fst q" ?XP ?YP]
    by (simp add: rectArea_def tx ty)
  have one: "length (filter (\<lambda>r. inRect r px py) (detectSegments data width height options)) = 1"
    if "px < width" "py < height" for px py
  proof -
    have cx: "length (filter (\<lambda>p. fst p \<le> real px \<and> real px < snd p) ?XP) = 1"
      using unique_gap[OF cuts_props(1,2)[OF wx], of "real px"] cuts_props(3,4)[OF wx] that(1)
      by (simp add: case_prod_unfold)
    have cy: "length (filter (\<lambda>q. fst q \<le> real py \<and> real py < snd q) ?YP) = 1"
      using unique_gap[OF cuts_props(1,2)[OF wy], of "real py"] cuts_props(3,4)[OF wy] that(2)
      by (simp add: case_prod_unfold)
    have "length (filter (\<lambda>r. inRect r px py) (concat (map (\<lambda>q. map (\<lambda>p. ?G p q) ?XP) ?YP)))
          = length (filter (\<lambda>p. fst p \<le> real px \<and> real px < snd p) ?XP) *
            length (filter (\<lambda>q. fst q \<le> real py \<and> real py < snd q) ?YP)"
      by (rule count_grid) (auto simp: inRect_def)
    then show ?thesis unfolding d by (simp add: cx cy)
  qed
  from area one show ?thesis by blast
qed

lemma half_grid_4x4:
  "detectSegments (replicate 64 0) 4 4 (grid_options [1 / 2] [1 / 2]) =
     [\<lparr>rect_x = 0, rect_y = 0, rect_w = 2, rect_h = 2\<rparr>,
      \<lparr>rect_x = 2, rect_y = 0, rect_w = 2, rect_h = 2\<rparr>,
      \<lparr>rect_x = 0, rect_y = 2, rect_w = 2, rect_h = 2\<rparr>,
      \<lparr>rect_x = 2, rect_y = 2, rect_w = 2, rect_h = 2\<rparr>]"
  by (simp add: detectSegments_def grid_options_def customGridRects_def js_round_def upt_rec)

theorem customGrid_tiles_whole_pixel_lines_witness:
  "opt_mode (grid_options [1 / 2] [1 / 2]) = grid \<and>
   opt_customGrid (grid_options [1 / 2] [1 / 2]) = Some \<lparr>xLines = [1 / 2], yLines = [1 / 2]\<rparr> \<and>
   whole_lines 4 [1 / 2] \<and>
   sum_list (map rectArea (detectSegments (replicate 64 0) 4 4 (grid_options [1 / 2] [1 / 2]))) = 16 \<and>
   length (filter (\<lambda>r. inRect r 3 1)
     (detectSegments (replicate 64 0) 4 4 (grid_options [1 / 2] [1 / 2]))) = 1"
proof -
  have m: "opt_mode (grid_options [1 / 2] [1 / 2]) = grid"
    and c: "opt_customGrid (grid_options [1 / 2] [1 / 2]) = Some \<lparr>xLines = [1 / 2], yLines = [1 / 2]\<rparr>"
    by (simp_all add: grid_options_def)
  have w: "whole_lines 4 [1 / 2]" by (simp add: whole_lines_def)
  have w': "whole_lines 4 (xLines \<lparr>xLines = [1 / 2], yLines = [1 / 2]\<rparr>)"
    "whole_lines 4 (yLines \<lparr>xLines = [1 / 2], yLines = [1 / 2]\<rparr>)" using w by simp_all
  from customGrid_tiles_whole_pixel_lines[OF m c w', of "replicate 64 0"] m c w
  show ?thesis by simp
qed

section \<open>detectSegments: smart mode and the area threshold\<close>

lemma smartRects_fold:
  "smartRects data width height options =
     snd (fold (scan_step minArea (isContentMap data width height (toleranceOf options))
                  width height (padOf options))
            [0..<width * height] (replicate (width * height) 0, []))"
  by (simp only: smartRects_def scan_step_def Let_def)

text \<open>
  A property of \<open>(visited, stack, box)\<close> that every round of \<open>comp_loop\<close> preserves holds
  of its result. Four such properties describe the result: the marks are those of the
  stack loop, the count is the number of cells popped, the box contains every cell popped
  and lies within every range that contains the stack and all content.
\<close>

lemma comp_loop_Cons:
  "comp_loop C w h v (idx # s) box =
     (case expand (comp_adm C w h) w idx (v, s) of
        (v', s') \<Rightarrow> comp_loop C w h v' s' (grow_box w idx box))"
  by (cases box) (simp add: grow_box_def Let_def)

lemma comp_loop_invariant:
  assumes "P v s box"
    and "\<And>v idx s box v1 s1. P v (idx # s) box
           \<Longrightarrow> expand (comp_adm C w h) w idx (v, s) = (v1, s1) \<Longrightarrow> P v1 s1 (grow_box w idx box)"
  shows "P (fst (comp_loop C w h v s box)) [] (snd (comp_loop C w h v s box))"
  using assms
proof (induction C w h v s box rule: comp_loop.induct)
  case (1 isContent width height visited box)
  then show ?case by simp
next
  case (2 isContent width height visited idx stack box)
  obtain minX maxX minY maxY count where box: "box = (minX, maxX, minY, maxY, count)"
    by (cases box) auto
  obtain v1 s1 where e: "expand (comp_adm isContent width height) width idx (visited, stack) = (v1, s1)"
    by force
  define box1 where "box1 = (if idx mod int width < minX then idx mod int width else minX,
       if idx mod int width > maxX then idx mod int width else maxX,
       if idx div int width < minY then idx div int width else minY,
       if idx div int width > maxY then idx div int width else maxY, count + 1)"
  have g: "grow_box width idx box = box1" by (simp add: grow_box_def box box1_def Let_def)
  have step: "comp_loop isContent width height visited (idx # stack) box
              = comp_loop isContent width height v1 s1 box1"
    by (simp add: box e Let_def box1_def)
  have p1: "P v1 s1 box1" using "2.prems"(2)[OF "2.prems"(1) e] g by simp
  have "P (fst (comp_loop isContent width height v1 s1 box1)) []
          (snd (comp_loop isContent width height v1 s1 box1))"
    unfolding box1_def
    by (rule "2.IH"[OF box[symmetric] refl refl refl refl refl refl e[symmetric]
          p1[unfolded box1_def] "2.prems"(2)])
  then show ?case by (simp only: step)
qed

lemma comp_loop_fst:
  "fst (comp_loop C w h v s box) = fill_loop (comp_adm C w h) w v s"
proof -
  define P where "P = (\<lambda>v' s' (b :: int \<times> int \<times> int \<times> int \<times> nat).
     fill_loop (comp_adm C w h) w v' s' = fill_loop (comp_adm C w h) w v s)"
  have "P (fst (comp_loop C w h v s box)) [] (snd (comp_loop C w h v s box))"
  proof (rule comp_loop_invariant)
    show "P v s box" by (simp add: P_def)
  next
    fix v idx s box v1 s1
    assume "P v (idx # s) box" and "expand (comp_adm C w h) w idx (v, s) = (v1, s1)"
    then show "P v1 s1 (grow_box w idx box)" by (simp add: P_def)
  qed
  then show ?thesis by (simp add: P_def)
qed

lemma visit_unvisited:
  "length (snd (visit adm i n s)) + unvisited (fst (visit adm i n s))
     = length (snd s) + unvisited (fst s)"
proof (cases s)
  case (Pair v st)
  show ?thesis
  proof (cases "adm i n \<and> rd v n = Some 0")
    case True
    then have "Suc (unvisited (wr v n 1)) = unvisited v" by (intro unvisited_wr) simp
    then show ?thesis using True Pair by (simp add: visit_def del: One_nat_def)
  next
    case False
    then show ?thesis using Pair by (auto simp: visit_def)
  qed
qed

lemma expand_unvisited:
  "length (snd (expand adm w i s)) + unvisited (fst (expand adm w i s))
     = length (snd s) + unvisited (fst s)"
proof -
  have "length (snd (fold (visit adm i) ns s)) + unvisited (fst (fold (visit adm i) ns s))
         = length (snd s) + unvisited (fst s)" for ns
  proof (induction ns arbitrary: s)
    case Nil
    then show ?case by simp
  next
    case (Cons n ns)
    have "length (snd (fold (visit adm i) ns (visit adm i n s)))
            + unvisited (fst (fold (visit adm i) ns (visit adm i n s)))
          = length (snd (visit adm i n s)) + unvisited (fst (visit adm i n s))"
      by (rule Cons.IH)
    also have "\<dots> = length (snd s) + unvisited (fst s)"
      by (rule visit_unvisited)
    finally show ?case by simp
  qed
  then show ?thesis by (simp only: expand_def)
qed

lemma comp_loop_count:
  assumes "comp_loop C w h v s (minX, maxX, minY, maxY, c) = (v', minX', maxX', minY', maxY', c')"
  shows "c' + unvisited v' = c + length s + unvisited v"
proof -
  define K where "K = c + length s + unvisited v"
  define P where "P = (\<lambda>(v' :: nat list) (s' :: int list) (b :: int \<times> int \<times> int \<times> int \<times> nat).
     snd (snd (snd (snd b))) + length s' + unvisited v' = K)"
  have "P (fst (comp_loop C w h v s (minX, maxX, minY, maxY, c))) []
          (snd (comp_loop C w h v s (minX, maxX, minY, maxY, c)))"
  proof (rule comp_loop_invariant)
    show "P v s (minX, maxX, minY, maxY, c)" by (simp add: P_def K_def)
  next
    fix v idx s box v1 s1
    assume p: "P v (idx # s) box" and e: "expand (comp_adm C w h) w idx (v, s) = (v1, s1)"
    have "length s1 + unvisited v1 = length s + unvisited v"
      using expand_unvisited[of "comp_adm C w h" w idx "(v, s)"] e by simp
    with p show "P v1 s1 (grow_box w idx box)"
      by (cases box) (simp add: P_def grow_box_def Let_def)
  qed
  then show ?thesis using assms by (simp add: P_def K_def)
qed

lemma in_box_grow:
  "grow_box w idx (minX, maxX, minY, maxY, c) = (minX1, maxX1, minY1, maxY1, c1)
     \<Longrightarrow> in_box minX1 maxX1 minY1 maxY1 w idx \<and>
         (in_box minX maxX minY maxY w j \<longrightarrow> in_box minX1 maxX1 minY1 maxY1 w j)"
  by (auto simp: grow_box_def in_box_def Let_def split: if_splits)

lemma comp_loop_covers:
  assumes r: "comp_loop C w h v s (minX, maxX, minY, maxY, c) = (v', minX', maxX', minY', maxY', c')"
    and j: "j \<in> set s \<or> (rd v j = Some 0 \<and> rd v' j = Some 1)"
  shows "in_box minX' maxX' minY' maxY' w j"
proof -
  define Q where "Q = (\<lambda>(b :: int \<times> int \<times> int \<times> int \<times> nat) k.
     case b of (a1, a2, a3, a4, a5) \<Rightarrow> in_box a1 a2 a3 a4 w k)"
  define P :: "nat list \<Rightarrow> int list \<Rightarrow> int \<times> int \<times> int \<times> int \<times> nat \<Rightarrow> bool"
    where "P = (\<lambda>v1 s1 b.
     (\<forall>k. k \<in> set s \<or> (rd v k = Some 0 \<and> rd v1 k = Some 1) \<longrightarrow> k \<in> set s1 \<or> Q b k) \<and>
     (\<forall>k. rd v1 k = Some 0 \<longrightarrow> rd v k = Some 0))"
  have "P (fst (comp_loop C w h v s (minX, maxX, minY, maxY, c))) []
          (snd (comp_loop C w h v s (minX, maxX, minY, maxY, c)))"
  proof (rule comp_loop_invariant)
    show "P v s (minX, maxX, minY, maxY, c)" by (auto simp: P_def)
  next
    fix va idx sa box v1 s1
    assume p: "P va (idx # sa) box" and e: "expand (comp_adm C w h) w idx (va, sa) = (v1, s1)"
    note f = expand_facts[OF e]
    obtain b1 b2 b3 b4 b5 where box: "box = (b1, b2, b3, b4, b5)" by (cases box) auto
    obtain g1 g2 g3 g4 g5 where g: "grow_box w idx box = (g1, g2, g3, g4, g5)"
      by (cases "grow_box w idx box") auto
    have wg: "Q (grow_box w idx box) idx" "\<And>k. Q box k \<Longrightarrow> Q (grow_box w idx box) k"
      using in_box_grow[OF g[unfolded box]] by (simp_all add: Q_def box g[unfolded box])
    have a: "k \<in> set s1 \<or> Q (grow_box w idx box) k"
      if k: "k \<in> set s \<or> (rd v k = Some 0 \<and> rd v1 k = Some 1)" for k
    proof (cases "k \<in> set s \<or> (rd v k = Some 0 \<and> rd va k = Some 1)")
      case True
      with p have "k \<in> set (idx # sa) \<or> Q box k" unfolding P_def by blast
      then show ?thesis using wg f(3) by auto
    next
      case False
      with k have k1: "rd v k = Some 0" "rd v1 k = Some 1" "rd va k \<noteq> Some 1" by auto
      then have "k \<in> pushed (comp_adm C w h) w idx va" using f(2)[of k] by (auto split: if_splits)
      then show ?thesis using f(3) by simp
    qed
    have b: "rd v k = Some 0" if "rd v1 k = Some 0" for k
    proof -
      from that f(2)[of k] have "rd va k = Some 0" by (auto split: if_splits)
      with p show ?thesis unfolding P_def by blast
    qed
    from a b show "P v1 s1 (grow_box w idx box)" by (simp add: P_def)
  qed
  then have "\<forall>k. k \<in> set s \<or> (rd v k = Some 0 \<and> rd v' k = Some 1)
               \<longrightarrow> in_box minX' maxX' minY' maxY' w k"
    using r by (simp add: P_def Q_def del: One_nat_def)
  with j show ?thesis by blast
qed

lemma comp_loop_bounded:
  assumes r: "comp_loop C w h v s (minX, maxX, minY, maxY, c) = (v', minX', maxX', minY', maxY', c')"
    and b: "a1 \<le> minX" "maxX \<le> a2" "a3 \<le> minY" "maxY \<le> a4"
    and s: "\<forall>j\<in>set s. in_box a1 a2 a3 a4 w j"
    and C: "\<forall>n. rd C n = Some 1 \<longrightarrow> in_box a1 a2 a3 a4 w n"
  shows "a1 \<le> minX' \<and> maxX' \<le> a2 \<and> a3 \<le> minY' \<and> maxY' \<le> a4"
proof -
  define P :: "nat list \<Rightarrow> int list \<Rightarrow> int \<times> int \<times> int \<times> int \<times> nat \<Rightarrow> bool"
    where "P = (\<lambda>v1 s1 b.
     (case b of (b1, b2, b3, b4, b5) \<Rightarrow> a1 \<le> b1 \<and> b2 \<le> a2 \<and> a3 \<le> b3 \<and> b4 \<le> a4) \<and>
     (\<forall>j\<in>set s1. in_box a1 a2 a3 a4 w j))"
  have "P (fst (comp_loop C w h v s (minX, maxX, minY, maxY, c))) []
          (snd (comp_loop C w h v s (minX, maxX, minY, maxY, c)))"
  proof (rule comp_loop_invariant)
    show "P v s (minX, maxX, minY, maxY, c)" using b s by (simp add: P_def)
  next
    fix va idx sa box v1 s1
    assume p: "P va (idx # sa) box" and e: "expand (comp_adm C w h) w idx (va, sa) = (v1, s1)"
    note f = expand_facts[OF e]
    obtain b1 b2 b3 b4 b5 where box: "box = (b1, b2, b3, b4, b5)" by (cases box) auto
    from p have i: "in_box a1 a2 a3 a4 w idx" and bb: "a1 \<le> b1" "b2 \<le> a2" "a3 \<le> b3" "b4 \<le> a4"
      and sa: "\<forall>j\<in>set sa. in_box a1 a2 a3 a4 w j"
      by (simp_all add: P_def box)
    have "\<forall>j\<in>pushed (comp_adm C w h) w idx va. in_box a1 a2 a3 a4 w j"
      using C by (auto simp: pushed_def comp_adm_def)
    with sa have s1: "\<forall>j\<in>set s1. in_box a1 a2 a3 a4 w j" using f(3) by auto
    have "case grow_box w idx box of (b1, b2, b3, b4, b5) \<Rightarrow>
            a1 \<le> b1 \<and> b2 \<le> a2 \<and> a3 \<le> b3 \<and> b4 \<le> a4"
      using i bb by (simp add: grow_box_def box Let_def in_box_def)
    with s1 show "P v1 s1 (grow_box w idx box)" by (simp add: P_def)
  qed
  then show ?thesis using r by (simp add: P_def)
qed

section \<open>The 100 x 100 scenario\<close>

lemma concat_chunks:
  assumes "\<And>i. length (f i) = 4"
  shows "length (concat (map f [0..<N])) = 4 * N"
    and "n < N \<Longrightarrow> k < 4 \<Longrightarrow> concat (map f [0..<N]) ! (4 * n + k) = f n ! k"
proof -
  show len: "length (concat (map f [0..<N])) = 4 * N" for N
    by (induction N) (simp_all add: assms)
  show "n < N \<Longrightarrow> k < 4 \<Longrightarrow> concat (map f [0..<N]) ! (4 * n + k) = f n ! k"
  proof (induction N)
    case 0
    then show ?case by simp
  next
    case (Suc N)
    show ?case
    proof (cases "n < N")
      case True
      then have "4 * n + k < 4 * N" using Suc.prems(2) by simp
      then show ?thesis using Suc.IH[OF True Suc.prems(2)] by (simp add: nth_append len)
    next
      case False
      with Suc.prems(1) have "n = N" by simp
      then show ?thesis using Suc.prems(2) by (simp add: nth_append len)
    qed
  qed
qed

lemma square_img_length: "length square_img = 40000"
  unfolding square_img_def by (subst concat_chunks(1)) simp_all

lemma square_img_rd:
  assumes "n < 10000" "k < 4"
  shows "rd square_img (int n * 4 + int k)
         = Some ((if in_square n then [255, 255, 255, 255] else [0, 0, 0, 255]) ! k)"
proof -
  have "rd square_img (int n * 4 + int k) = rd square_img (int (4 * n + k))" by (simp add: algebra_simps)
  also have "\<dots> = Some (square_img ! (4 * n + k))"
    using assms by (simp only: rd_int square_img_length) simp
  also have "square_img ! (4 * n + k)
             = (if in_square n then [255, 255, 255, 255] else [0, 0, 0, 255]) ! k"
    unfolding square_img_def by (rule concat_chunks(2)) (simp_all add: assms)
  finally show ?thesis .
qed

lemma not_in_square_0: "\<not> in_square 0"
  by (simp add: in_square_def)

lemma square_img_bg: "rd square_img 0 = Some 0" "rd square_img 1 = Some 0" "rd square_img 2 = Some 0"
  using square_img_rd[of 0 0] square_img_rd[of 0 1] square_img_rd[of 0 2]
  by (simp_all add: not_in_square_0)

lemma square_img_pixel:
  assumes "n < 10000"
  shows "rd square_img (int n * 4) = Some (if in_square n then 255 else 0)"
    "rd square_img (int n * 4 + 1) = Some (if in_square n then 255 else 0)"
    "rd square_img (int n * 4 + 2) = Some (if in_square n then 255 else 0)"
  using square_img_rd[OF assms, of 0] square_img_rd[OF assms, of 1] square_img_rd[OF assms, of 2]
  by simp_all

lemma square_near_bg:
  assumes "n < 10000"
  shows "near_bg square_img 10 (int n) \<longleftrightarrow> \<not> in_square n"
  by (simp add: near_bg_def sqdist_def square_img_pixel[OF assms] square_img_bg threshSq_def Let_def)

lemma square_content:
  assumes "n < 10000" "0 \<le> tol" "content_at square_img tol (int n)"
  shows "in_square n"
proof (rule ccontr)
  assume "\<not> in_square n"
  then have "\<not> content_at square_img tol (int n)"
    using assms(2)
    by (simp add: content_at_def square_img_pixel[OF assms(1)] square_img_bg colorDist_def)
  with assms(3) show False by simp
qed

lemma in_square_xy:
  "x < 100 \<Longrightarrow> in_square (y * 100 + x) \<longleftrightarrow> 40 \<le> x \<and> x < 60 \<and> 40 \<le> y \<and> y < 60"
  by (simp add: in_square_def)

lemma square_card: "card {n. n < 10000 \<and> in_square n} = 400"
proof -
  have "{n. n < 10000 \<and> in_square n}
        = (\<lambda>(y, x). y * 100 + x) ` ({40..<60::nat} \<times> {40..<60::nat})"
  proof (intro set_eqI iffI)
    fix n :: nat assume "n \<in> {n. n < 10000 \<and> in_square n}"
    then have "(n div 100, n mod 100) \<in> {40..<60::nat} \<times> {40..<60::nat}"
      by (simp add: in_square_def)
    moreover have "n = (\<lambda>(y, x). y * 100 + x) (n div 100, n mod 100)" by simp
    ultimately show "n \<in> (\<lambda>(y, x). y * 100 + x) ` ({40..<60::nat} \<times> {40..<60::nat})"
      by (rule rev_image_eqI)
  next
    fix n :: nat assume "n \<in> (\<lambda>(y, x). y * 100 + x) ` ({40..<60::nat} \<times> {40..<60::nat})"
    then obtain y x where "n = y * 100 + x" "40 \<le> y" "y < 60" "40 \<le> x" "x < 60" by auto
    then show "n \<in> {n. n < 10000 \<and> in_square n}" by (simp add: in_square_xy)
  qed
  moreover have "inj_on (\<lambda>(y, x). y * 100 + x) ({40..<60} \<times> {40..<60::nat})"
  proof (rule inj_onI, clarify)
    fix y x y' x' :: nat
    assume a: "x \<in> {40..<60}" "x' \<in> {40..<60}" "y * 100 + x = y' * 100 + x'"
    then have b: "x < 100" "x' < 100" by simp_all
    have "(y * 100 + x) div 100 = y" "(y' * 100 + x') div 100 = y'" using b by simp_all
    with a(3) have "y = y'" by simp
    with a(3) show "y = y' \<and> x = x'" by simp
  qed
  ultimately have "card {n. n < 10000 \<and> in_square n} = card ({40..<60::nat} \<times> {40..<60::nat})"
    by (simp only: card_image)
  also have "\<dots> = 400" by (simp only: card_cartesian_product card_atLeastLessThan) simp
  finally show ?thesis .
qed

lemma flood_right:
  assumes "int i \<in> flood_bg data w h tol" "i mod w + 1 < w" "i + 1 < w * h"
    "near_bg data tol (int (i + 1))"
  shows "int (i + 1) \<in> flood_bg data w h tol"
proof -
  have "(i + 1) mod w = i mod w + 1" using assms(2) by (simp add: mod_Suc)
  then have "int ((i + 1) mod w) - int (i mod w) = 1" by simp
  then have "int (i + 1) mod int w - int i mod int w = 1" by (simp only: zmod_int)
  then have "flood_adm data w h tol (int i) (int (i + 1))"
    unfolding flood_adm_def using assms(3,4) by (simp del: of_nat_mult of_nat_add)
  moreover have "int (i + 1) \<in> set [int i - 1, int i + 1, int i - int w, int i + int w]" by simp
  ultimately show ?thesis using assms(1) unfolding flood_bg_def by (metis reach.step)
qed

lemma flood_left:
  assumes "int i \<in> flood_bg data w h tol" "0 < i mod w" "i < w * h"
    "near_bg data tol (int (i - 1))"
  shows "int (i - 1) \<in> flood_bg data w h tol"
proof -
  from assms(2) have i: "0 < i" by (cases i) auto
  then obtain j where j: "i = Suc j" by (cases i) auto
  have "Suc j mod w = Suc (j mod w)" using assms(2) unfolding j by (simp add: mod_Suc split: if_splits)
  then have "int (i mod w) - int ((i - 1) mod w) = 1" unfolding j by simp
  then have "int i mod int w - int (i - 1) mod int w = 1" by (simp only: zmod_int)
  then have "flood_adm data w h tol (int i) (int (i - 1))"
    unfolding flood_adm_def using assms(3,4) by (simp del: of_nat_mult of_nat_add)
  moreover have "int (i - 1) \<in> set [int i - 1, int i + 1, int i - int w, int i + int w]"
    unfolding j by simp
  ultimately show ?thesis using assms(1) unfolding flood_bg_def by (metis reach.step)
qed

lemma flood_down:
  assumes "int i \<in> flood_bg data w h tol" "i + w < w * h" "near_bg data tol (int (i + w))"
  shows "int (i + w) \<in> flood_bg data w h tol"
proof -
  have "int (i + w) mod int w - int i mod int w = 0" by simp
  then have "flood_adm data w h tol (int i) (int (i + w))"
    unfolding flood_adm_def using assms(2,3) by (simp del: of_nat_mult of_nat_add)
  moreover have "int (i + w) \<in> set [int i - 1, int i + 1, int i - int w, int i + int w]" by simp
  ultimately show ?thesis using assms(1) unfolding flood_bg_def by (metis reach.step)
qed

lemma flood_bg_cases:
  assumes "c \<in> flood_bg data w h tol"
  shows "c \<in> set (corner_seeds w h) \<or> (0 \<le> c \<and> c < int (w * h) \<and> near_bg data tol c)"
  using assms unfolding flood_bg_def
  by (cases rule: reach.cases) (auto simp: flood_adm_def)

lemma square_seeds: "corner_seeds 100 100 = [0, 99, 9900, 9999]"
  by (simp add: corner_seeds_def)

lemma square_black_reached:
  assumes n: "n < 10000" and b: "\<not> in_square n"
  shows "int n \<in> flood_bg square_img 100 100 10"
proof -
  let ?F = "flood_bg square_img 100 100 10"
  have nb: "near_bg square_img 10 (int k)" if "k < 10000" "\<not> in_square k" for k
    using square_near_bg[OF that(1)] that(2) by simp
  have lt: "y * 100 + x < 10000" if "y < 100" "x < 100" for x y :: nat using that by simp
  have col0: "int (y * 100) \<in> ?F" if "y < 100" for y
    using that
  proof (induction y)
    case 0
    show ?case unfolding flood_bg_def by (rule reach.start) (simp add: square_seeds)
  next
    case (Suc y)
    then have i: "int (y * 100) \<in> ?F" by simp
    have e: "y * 100 + 100 = Suc y * 100 + 0" by simp
    have "\<not> in_square (y * 100 + 100)" unfolding e by (simp only: in_square_xy) simp
    moreover have l: "y * 100 + 100 < 100 * 100" using Suc.prems by simp
    ultimately have "near_bg square_img 10 (int (y * 100 + 100))" by (intro nb) simp_all
    from flood_down[OF i l this] show ?case by (simp only: e) simp
  qed
  have col99: "int (y * 100 + 99) \<in> ?F" if "y < 100" for y
    using that
  proof (induction y)
    case 0
    show ?case unfolding flood_bg_def by (rule reach.start) (simp add: square_seeds)
  next
    case (Suc y)
    then have i: "int (y * 100 + 99) \<in> ?F" by simp
    have e: "y * 100 + 99 + 100 = Suc y * 100 + 99" by simp
    have "\<not> in_square (y * 100 + 99 + 100)" unfolding e by (simp only: in_square_xy) simp
    moreover have l: "y * 100 + 99 + 100 < 100 * 100" using Suc.prems by simp
    ultimately have "near_bg square_img 10 (int (y * 100 + 99 + 100))" by (intro nb) simp_all
    from flood_down[OF i l this] show ?case by (simp only: e)
  qed
  have right: "int (y * 100 + x) \<in> ?F"
    if "y < 100" "x < 100" "\<forall>k\<le>x. \<not> in_square (y * 100 + k)" for x y
    using that(2,3)
  proof (induction x)
    case 0
    then show ?case using col0[OF that(1)] by simp
  next
    case (Suc x)
    then have i: "int (y * 100 + x) \<in> ?F" by simp
    have m: "(y * 100 + x) mod 100 + 1 < 100" using Suc.prems(1) by simp
    have l: "y * 100 + x + 1 < 100 * 100" using lt[OF that(1) Suc.prems(1)] by simp
    have ns: "\<not> in_square (y * 100 + Suc x)" using Suc.prems(2) by blast
    have e: "y * 100 + x + 1 = y * 100 + Suc x" by simp
    have "near_bg square_img 10 (int (y * 100 + x + 1))"
      unfolding e by (rule nb[OF lt[OF that(1) Suc.prems(1)] ns])
    from flood_right[OF i m l this] show ?case by (simp only: e)
  qed
  have left: "int (y * 100 + (99 - d)) \<in> ?F"
    if "y < 100" "d \<le> 99" "\<forall>k. 99 - d \<le> k \<and> k < 100 \<longrightarrow> \<not> in_square (y * 100 + k)" for d y
    using that(2,3)
  proof (induction d)
    case 0
    then show ?case using col99[OF that(1)] by simp
  next
    case (Suc d)
    have "99 - Suc d \<le> k" if "99 - d \<le> k" for k using that by simp
    with Suc.prems(2) have w: "\<forall>k. 99 - d \<le> k \<and> k < 100 \<longrightarrow> \<not> in_square (y * 100 + k)"
      by blast
    have d99: "d \<le> 99" using Suc.prems(1) by simp
    define c where "c = 99 - d"
    from Suc.IH[OF d99 w] have i: "int (y * 100 + c) \<in> ?F" by (simp only: c_def)
    have c: "0 < c" "c < 100" "c - 1 = 99 - Suc d" using Suc.prems(1) by (simp_all add: c_def)
    have e: "y * 100 + c - 1 = y * 100 + (99 - Suc d)" using c by simp
    have "(y * 100 + c) mod 100 = c" using c(2) by simp
    then have m: "0 < (y * 100 + c) mod 100" using c(1) by simp
    have l: "y * 100 + c < 100 * 100" using lt[OF that(1) c(2)] by simp
    have "99 - Suc d \<le> 99 - Suc d \<and> 99 - Suc d < 100" by simp
    with Suc.prems(2) have ns: "\<not> in_square (y * 100 + (99 - Suc d))" by blast
    have l': "y * 100 + (99 - Suc d) < 10000" by (rule lt[OF that(1)]) simp
    have "near_bg square_img 10 (int (y * 100 + c - 1))"
      unfolding e by (rule nb[OF l' ns])
    from flood_left[OF i m l this] show ?case unfolding e .
  qed
  define x y where "x = n mod 100" and "y = n div 100"
  have xy: "n = y * 100 + x" "x < 100" "y < 100" using n by (simp_all add: x_def y_def)
  from b xy(1) have "\<not> in_square (y * 100 + x)" by simp
  then have blk: "\<not> (40 \<le> x \<and> x < 60 \<and> 40 \<le> y \<and> y < 60)"
    using in_square_xy[OF xy(2), of y] by blast
  show ?thesis
  proof (cases "x < 40 \<or> \<not> (40 \<le> y \<and> y < 60)")
    case True
    have "\<forall>k\<le>x. \<not> in_square (y * 100 + k)"
    proof (intro allI impI)
      fix k assume "k \<le> x"
      then have "k < 100" using xy(2) by simp
      then show "\<not> in_square (y * 100 + k)" using True \<open>k \<le> x\<close> by (simp only: in_square_xy) auto
    qed
    from right[OF xy(3,2) this] show ?thesis by (simp only: xy(1))
  next
    case False
    with blk have x60: "60 \<le> x" by auto
    have a: "\<forall>k. 99 - (99 - x) \<le> k \<and> k < 100 \<longrightarrow> \<not> in_square (y * 100 + k)"
    proof (intro allI impI)
      fix k assume "99 - (99 - x) \<le> k \<and> k < 100"
      then have "60 \<le> k" "k < 100" using x60 xy(2) by simp_all
      then show "\<not> in_square (y * 100 + k)" by (simp only: in_square_xy) simp
    qed
    have "99 - (99 - x) = x" using xy(2) by simp
    with left[OF xy(3) _ a] show ?thesis by (simp add: xy(1))
  qed
qed

lemma square_flood_bg:
  assumes "n < 10000"
  shows "int n \<in> flood_bg square_img 100 100 10 \<longleftrightarrow> \<not> in_square n"
proof
  assume "int n \<in> flood_bg square_img 100 100 10"
  from flood_bg_cases[OF this] show "\<not> in_square n"
  proof
    assume "int n \<in> set (corner_seeds 100 100)"
    then have "n = 0 \<or> n = 99 \<or> n = 9900 \<or> n = 9999" by (simp add: square_seeds)
    then show ?thesis by (auto simp: in_square_def)
  next
    assume "0 \<le> int n \<and> int n < int (100 * 100) \<and> near_bg square_img 10 (int n)"
    then show ?thesis using square_near_bg[OF assms] by simp
  qed
next
  assume "\<not> in_square n"
  then show "int n \<in> flood_bg square_img 100 100 10" by (rule square_black_reached[OF assms])
qed

lemma square_mask:
  "generateFloodFillMask square_img 100 100 10 = map (\<lambda>n. if in_square n then 1 else 0) [0..<10000]"
proof -
  have "map (\<lambda>n. if int n \<in> flood_bg square_img 100 100 10 then 0 else 1) [0..<100 * 100]
        = map (\<lambda>n. if in_square n then 1 else (0::nat)) [0..<100 * 100]"
    by (rule map_cong) (simp_all add: square_flood_bg)
  then show ?thesis by (simp add: generateFloodFillMask_eq)
qed

lemma square_mask_count:
  "length (filter (\<lambda>v. v = 1) (generateFloodFillMask square_img 100 100 10)) = 400"
proof -
  have "length (filter (\<lambda>v. v = 1) (map (\<lambda>n. if in_square n then 1 else (0::nat)) [0..<10000]))
        = length (filter in_square [0..<10000])"
    by (simp add: filter_map comp_def)
  also have "\<dots> = card ({n. in_square n} \<inter> set [0..<10000])"
    by (rule distinct_length_filter) simp
  also have "{n. in_square n} \<inter> set [0..<10000] = {n. n < 10000 \<and> in_square n}" by auto
  finally show ?thesis by (simp only: square_mask square_card)
qed

subsection \<open>The component of the square\<close>

lemma square_map_length: "length square_map = 10000"
  by (simp add: square_map_def)

lemma square_map_rd:
  "rd square_map k = (if 0 \<le> k \<and> k < 10000 then Some (if in_square (nat k) then 1 else 0) else None)"
proof (cases "0 \<le> k \<and> k < 10000")
  case True
  define n where "n = nat k"
  from True have k: "k = int n" by (simp add: n_def)
  from True have n: "n < 10000" unfolding n_def by linarith
  have "map f [0..<N] ! m = f m" if "m < N" for f :: "nat \<Rightarrow> nat" and N m
    using that by simp
  from this[OF n] have "square_map ! n = (if in_square n then 1 else 0)"
    by (simp only: square_map_def)
  then show ?thesis using True n by (simp add: k rd_int square_map_length)
next
  case False
  then show ?thesis by (auto simp: rd_def square_map_length)
qed

lemma square_map_content: "rd square_map k = Some 1 \<longleftrightarrow> 0 \<le> k \<and> k < 10000 \<and> in_square (nat k)"
  by (auto simp: square_map_rd)

lemma square_coords:
  assumes "d < 20" "e < 20"
  shows "(4040 + d + 100 * e) mod 100 = 40 + d" "(4040 + d + 100 * e) div 100 = 40 + e"
    "in_square (4040 + d + 100 * e)" "4040 + d + 100 * e < 10000"
proof -
  have eq: "4040 + d + 100 * e = (40 + e) * 100 + (40 + d)" by simp
  have "((40 + e) * 100 + (40 + d)) mod 100 = (40 + d) mod 100" by (rule mod_mult_self3)
  also have "\<dots> = 40 + d" using assms(1) by simp
  finally show m: "(4040 + d + 100 * e) mod 100 = 40 + d" by (simp only: eq)
  have "((40 + e) * 100 + (40 + d)) div 100 = (40 + e) + (40 + d) div 100"
    by (rule div_mult_self3) simp
  also have "\<dots> = 40 + e" using assms(1) by simp
  finally show dv: "(4040 + d + 100 * e) div 100 = 40 + e" by (simp only: eq)
  show "in_square (4040 + d + 100 * e)" using assms by (simp only: in_square_def m dv) simp
  show "4040 + d + 100 * e < 10000" using assms by simp
qed

lemma square_seeded_rd:
  "rd square_seeded k = (if k = 4040 then Some 1 else if 0 \<le> k \<and> k < 10000 then Some 0 else None)"
  by (simp add: square_seeded_def rd_wr rd_replicate)

lemma square_seeded_length: "length square_seeded = 10000"
  by (simp add: square_seeded_def)

lemma white_far: "441 < sqrt 195075"
  by (rule real_less_rsqrt) simp

lemma square_content_iff:
  assumes "n < 10000" "0 \<le> tol" "tol \<le> 147"
  shows "content_at square_img tol (int n) \<longleftrightarrow> in_square n"
proof (cases "in_square n")
  case True
  have "tol * 3 \<le> 441" using assms(3) by simp
  also note white_far
  finally have "tol * 3 < sqrt 195075" .
  then show ?thesis
    using True by (simp add: content_at_def square_img_pixel[OF assms(1)] square_img_bg colorDist_def)
next
  case False
  then show ?thesis using square_content[OF assms(1,2)] by blast
qed

lemma square_isContentMap:
  assumes "0 \<le> tol" "tol \<le> 147"
  shows "isContentMap square_img 100 100 tol = square_map"
proof -
  have "map (\<lambda>i. if content_at square_img tol (int i) then 1 else 0) [0..<100 * 100]
        = map (\<lambda>n. if in_square n then 1 else (0::nat)) [0..<100 * 100]"
    by (rule map_cong) (simp_all add: square_content_iff[OF _ assms])
  then show ?thesis by (simp add: isContentMap_def square_map_def)
qed

lemma toleranceOf_range:
  assumes "0 \<le> opt_tolerance options" "opt_tolerance options \<le> 147"
  shows "0 \<le> toleranceOf options" "toleranceOf options \<le> 147"
  using assms by (simp_all add: toleranceOf_def)

lemma square_reach_step:
  assumes i: "i \<in> reach (radm (comp_adm square_map 100 100) square_seeded) 100 {4040}"
    and n: "n < 10000" "in_square n" "n \<noteq> 4040"
    and s: "int n \<in> set [i - 1, i + 1, i - int 100, i + int 100]"
    and x: "\<bar>int n mod 100 - i mod 100\<bar> \<le> 1"
  shows "int n \<in> reach (radm (comp_adm square_map 100 100) square_seeded) 100 {4040}"
proof -
  have "comp_adm square_map 100 100 i (int n)"
    using n x by (simp add: comp_adm_def square_map_rd)
  moreover have "rd square_seeded (int n) = Some 0" using n by (simp add: square_seeded_rd)
  ultimately have "radm (comp_adm square_map 100 100) square_seeded i (int n)" by (simp add: radm_def)
  from reach.step[OF i s this] show ?thesis .
qed

lemma square_reached:
  assumes n: "n < 10000" and sq: "in_square n"
  shows "int n \<in> reach (radm (comp_adm square_map 100 100) square_seeded) 100 {4040}"
proof -
  let ?R = "reach (radm (comp_adm square_map 100 100) square_seeded) 100 {4040}"
  have row: "int (4040 + d) \<in> ?R" if "d < 20" for d
    using that
  proof (induction d)
    case 0
    show ?case by (simp add: reach.start)
  next
    case (Suc d)
    then have i: "int (4040 + d) \<in> ?R" by simp
    have sq: "in_square (4040 + Suc d)" using square_coords(3)[of "Suc d" 0] Suc.prems by simp
    have m: "(4040 + Suc d) mod 100 = 40 + Suc d" "(4040 + d) mod 100 = 40 + d"
      using square_coords(1)[of "Suc d" 0] square_coords(1)[of d 0] Suc.prems by simp_all
    have "int (4040 + Suc d) mod 100 - int (4040 + d) mod 100
          = int ((4040 + Suc d) mod 100) - int ((4040 + d) mod 100)"
      by (simp only: zmod_int) simp
    also have "\<dots> = 1" unfolding m by simp
    finally have x: "\<bar>int (4040 + Suc d) mod 100 - int (4040 + d) mod 100\<bar> \<le> 1" by simp
    have a: "4040 + Suc d < 10000" "4040 + Suc d \<noteq> 4040" using Suc.prems by simp_all
    have c: "int (4040 + Suc d) \<in> set [int (4040 + d) - 1, int (4040 + d) + 1,
               int (4040 + d) - int 100, int (4040 + d) + int 100]" by simp
    show ?case by (rule square_reach_step[OF i a(1) sq a(2) c x])
  qed
  have col: "int (4040 + d + 100 * e) \<in> ?R" if "d < 20" "e < 20" for d e
    using that(2)
  proof (induction e)
    case 0
    show ?case using row[OF that(1)] by simp
  next
    case (Suc e)
    then have i: "int (4040 + d + 100 * e) \<in> ?R" by simp
    have sq: "in_square (4040 + d + 100 * Suc e)"
      using Suc.prems that(1) by (intro square_coords(3))
    have "int (4040 + d + 100 * Suc e) = int (4040 + d + 100 * e) + 100" by simp
    then have "int (4040 + d + 100 * Suc e) mod 100 = int (4040 + d + 100 * e) mod 100"
      by (simp only: mod_add_self2)
    then have x: "\<bar>int (4040 + d + 100 * Suc e) mod 100 - int (4040 + d + 100 * e) mod 100\<bar> \<le> 1"
      by simp
    have a: "4040 + d + 100 * Suc e < 10000" "4040 + d + 100 * Suc e \<noteq> 4040"
      using Suc.prems that(1) by simp_all
    have c: "int (4040 + d + 100 * Suc e) \<in> set [int (4040 + d + 100 * e) - 1,
               int (4040 + d + 100 * e) + 1, int (4040 + d + 100 * e) - int 100,
               int (4040 + d + 100 * e) + int 100]" by simp
    show ?case by (rule square_reach_step[OF i a(1) sq a(2) c x])
  qed
  define d e where "d = n mod 100 - 40" and "e = n div 100 - 40"
  from sq have b: "40 \<le> n mod 100" "n mod 100 < 60" "40 \<le> n div 100" "n div 100 < 60"
    by (simp_all add: in_square_def)
  have dd: "n mod 100 = 40 + d" "n div 100 = 40 + e" using b by (simp_all add: d_def e_def)
  have "n = 100 * (n div 100) + n mod 100" by simp
  also have "\<dots> = 100 * (40 + e) + (40 + d)" by (simp only: dd)
  also have "\<dots> = 4040 + d + 100 * e" by simp
  finally have "n = 4040 + d + 100 * e" .
  moreover have "d < 20" "e < 20" using b by (simp_all add: d_def e_def)
  ultimately show ?thesis using col by simp
qed

lemma square_reach_sound:
  assumes "k \<in> reach (radm (comp_adm square_map 100 100) square_seeded) 100 {4040}"
  shows "k = 4040 \<or> rd square_map k = Some 1"
  using assms by (induction rule: reach.induct) (simp_all add: radm_def comp_adm_def)

lemma square_fill:
  "fill_loop (comp_adm square_map 100 100) 100 square_seeded [4040] = square_map"
proof (rule nth_equalityI)
  show "length (fill_loop (comp_adm square_map 100 100) 100 square_seeded [4040]) = length square_map"
    by (simp only: fill_loop_length square_seeded_length square_map_length)
next
  fix n assume "n < length (fill_loop (comp_adm square_map 100 100) 100 square_seeded [4040])"
  then have n: "n < 10000" by (simp only: fill_loop_length square_seeded_length)
  let ?F = "fill_loop (comp_adm square_map 100 100) 100 square_seeded [4040]"
  let ?R = "reach (radm (comp_adm square_map 100 100) square_seeded) 100 {4040}"
  have s: "\<forall>j\<in>set [4040]. rd square_seeded j \<noteq> Some 0" by (simp add: square_seeded_rd)
  have r: "rd ?F (int n) = (if rd square_seeded (int n) = Some 0 \<and> int n \<in> ?R
                             then Some 1 else rd square_seeded (int n))"
    using fill_loop_rd[OF s, of "comp_adm square_map 100 100" 100 "int n"]
    by (simp del: fill_loop.simps)
  have "rd ?F (int n) = rd square_map (int n)"
  proof (cases "in_square n")
    case True
    have "int n \<in> ?R" by (rule square_reached[OF n True])
    then show ?thesis using n True by (simp add: r square_seeded_rd square_map_rd del: fill_loop.simps)
  next
    case False
    then have "n \<noteq> 4040" by (auto simp: in_square_def)
    moreover have "int n \<notin> ?R"
    proof
      assume "int n \<in> ?R"
      from square_reach_sound[OF this] False \<open>n \<noteq> 4040\<close> show False
        by (auto simp: square_map_content simp del: One_nat_def)
    qed
    ultimately show ?thesis using n False
      by (simp add: r square_seeded_rd square_map_rd del: fill_loop.simps)
  qed
  then show "?F ! n = square_map ! n"
    using n
    by (simp add: rd_int fill_loop_length square_seeded_length square_map_length
          del: fill_loop.simps)
qed

lemma square_map_nth: "k < 10000 \<Longrightarrow> square_map ! k = (if in_square k then 1 else 0)"
  using square_map_rd[of "int k"] by (simp add: rd_int square_map_length)

lemma unvisited_replicate: "unvisited (replicate N 0) = N"
proof -
  have "{k. k < length (replicate N (0::nat)) \<and> replicate N (0::nat) ! k = 0} = {..<N}" by auto
  then show ?thesis by (simp only: unvisited_def card_lessThan)
qed

lemma unvisited_square_seeded: "unvisited square_seeded = 9999"
proof -
  have "rd (replicate 10000 (0::nat)) 4040 = Some 0" by (simp add: rd_replicate)
  from unvisited_wr[OF this] have "Suc (unvisited square_seeded) = 10000"
    by (simp only: square_seeded_def unvisited_replicate)
  then show ?thesis by simp
qed

lemma unvisited_square_map: "unvisited square_map = 9600"
proof -
  have "{k. k < length square_map \<and> square_map ! k = 0} = {..<10000} - {n. n < 10000 \<and> in_square n}"
    by (auto simp: square_map_length square_map_nth)
  moreover have "card ({..<10000::nat} - {n. n < 10000 \<and> in_square n})
                 = card {..<10000::nat} - card {n. n < 10000 \<and> in_square n}"
    by (rule card_Diff_subset) auto
  ultimately show ?thesis by (simp only: unvisited_def square_card card_lessThan)
qed

lemma square_map_in_box: "rd square_map k = Some 1 \<Longrightarrow> in_box 40 59 40 59 100 k"
proof -
  assume "rd square_map k = Some 1"
  with square_map_content[of k] have k: "0 \<le> k" "k < 10000" "in_square (nat k)" by blast+
  define n where "n = nat k"
  have kn: "k = int n" using k(1) by (simp add: n_def)
  have m: "k mod 100 = int (n mod 100)" "k div 100 = int (n div 100)"
    by (simp_all add: kn zmod_int zdiv_int)
  from k(3) have "40 \<le> n mod 100" "n mod 100 < 60" "40 \<le> n div 100" "n div 100 < 60"
    by (simp_all add: in_square_def n_def)
  then show ?thesis by (simp add: in_box_def m)
qed

lemma square_component:
  "comp_loop square_map 100 100 square_seeded [4040] (40, 40, 40, 40, 0)
     = (square_map, 40, 59, 40, 59, 400)"
proof -
  obtain v' a b c d n where
    r: "comp_loop square_map 100 100 square_seeded [4040] (40, 40, 40, 40, 0) = (v', a, b, c, d, n)"
    by (metis prod_cases5 surj_pair)
  have "v' = fst (comp_loop square_map 100 100 square_seeded [4040] (40, 40, 40, 40, 0))"
    by (simp only: r fst_conv)
  then have v: "v' = square_map" by (simp only: comp_loop_fst square_fill)
  have "n + unvisited v' = 0 + length [4040::int] + unvisited square_seeded"
    by (rule comp_loop_count[OF r])
  then have n: "n = 400" by (simp only: v unvisited_square_map unvisited_square_seeded) simp
  have "in_box a b c d 100 4040"
    by (rule comp_loop_covers[OF r]) simp
  then have lo: "a \<le> 40" "c \<le> 40" by (simp_all add: in_box_def)
  have "rd square_seeded 5959 = Some 0 \<and> rd v' 5959 = Some 1"
    by (simp add: v square_seeded_rd square_map_rd in_square_def)
  then have "in_box a b c d 100 5959"
    by (intro comp_loop_covers[OF r] disjI2)
  then have hi: "59 \<le> b" "59 \<le> d" by (simp_all add: in_box_def)
  have "40 \<le> a \<and> b \<le> 59 \<and> 40 \<le> c \<and> d \<le> 59"
  proof (rule comp_loop_bounded[OF r])
    show "\<forall>j\<in>set [4040]. in_box 40 59 40 59 100 j" by (simp add: in_box_def)
    show "\<forall>n. rd square_map n = Some 1 \<longrightarrow> in_box 40 59 40 59 100 n"
      using square_map_in_box by blast
  qed simp_all
  with lo hi have "a = 40" "b = 59" "c = 40" "d = 59" by simp_all
  with r v n show ?thesis by (simp only:)
qed

lemma fold_one_change:
  assumes "a < b"
    and "\<And>i. i < a \<Longrightarrow> f i s0 = s0"
    and "f a s0 = s1"
    and "\<And>i. f i s1 = s1"
  shows "fold f [0..<b] s0 = s1"
proof -
  have fixed: "fold f xs s = s" if "\<And>x. x \<in> set xs \<Longrightarrow> f x s = s" for xs s
    using that by (induction xs) simp_all
  obtain k where k: "b = a + k" using assms(1) by (metis less_imp_add_positive)
  have "[0..<a + k] = [0..<a] @ [a..<a + k]" by (rule upt_add_eq_append) simp
  then have "[0..<b] = [0..<a] @ [a..<b]" by (simp only: k)
  also have "[a..<b] = a # [Suc a..<b]" using assms(1) by (rule upt_conv_Cons)
  finally have "fold f [0..<b] s0 = fold f [Suc a..<b] (f a (fold f [0..<a] s0))" by simp
  also have "fold f [0..<a] s0 = s0" by (rule fixed) (simp add: assms(2))
  also have "fold f [Suc a..<b] (f a s0) = s1" unfolding assms(3) by (rule fixed) (rule assms(4))
  finally show ?thesis .
qed

lemma scan_step_skip:
  assumes "\<not> (rd C (int i) = Some 1 \<and> rd v (int i) = Some 0)"
  shows "scan_step m C w h pad i (v, r) = (v, r)"
  unfolding scan_step_def by (simp only: assms prod.case if_False)

lemma before_square: "i < 4040 \<Longrightarrow> \<not> in_square i"
proof
  assume i: "i < 4040" and s: "in_square i"
  from s have "40 \<le> i mod 100" "40 \<le> i div 100" by (simp_all add: in_square_def)
  then have "40 * 100 + 40 \<le> (i div 100) * 100 + i mod 100" by (intro add_mono mult_right_mono) simp_all
  with i show False by simp
qed

lemma square_scan:
  "fold (scan_step m square_map 100 100 pad) [0..<100 * 100] (replicate (100 * 100) 0, [])
     = (square_map, if m < 400 then [paddedRect 100 100 pad 40 59 40 59] else [])"
proof -
  let ?f = "scan_step m square_map 100 100 pad"
  let ?s1 = "(square_map, if m < 400 then [paddedRect 100 100 pad 40 59 40 59] else [])"
  have "fold ?f [0..<10000] (replicate 10000 0, []) = ?s1"
  proof (rule fold_one_change[where a = 4040])
    show "(4040::nat) < 10000" by simp
  next
    fix i :: nat assume "i < 4040"
    then have "rd square_map (int i) = Some 0"
      using before_square[of i] by (simp add: square_map_rd)
    then show "?f i (replicate 10000 0, []) = (replicate 10000 0, [])"
      by (intro scan_step_skip) simp
  next
    have c: "rd square_map (int 4040) = Some 1" by (simp add: square_map_rd in_square_def)
    have v: "rd (replicate 10000 (0::nat)) (int 4040) = Some 0" by (simp add: rd_replicate)
    have w: "wr (replicate 10000 0) (int 4040) 1 = square_seeded" by (simp add: square_seeded_def)
    have x: "int 4040 mod int 100 = 40" "int 4040 div int 100 = 40" by simp_all
    have "?f 4040 (replicate 10000 0, [])
          = (case comp_loop square_map 100 100 square_seeded [int 4040] (40, 40, 40, 40, 0) of
               (visited', minX, maxX, minY, maxY, count) \<Rightarrow>
                 if count > m
                 then (visited', [] @ [paddedRect 100 100 pad minX maxX minY maxY])
                 else (visited', []))"
      unfolding scan_step_def by (simp only: c v w x prod.case refl simp_thms if_True)
    also have "int 4040 = 4040" by simp
    finally show "?f 4040 (replicate 10000 0, []) = ?s1"
      by (simp only: square_component prod.case) auto
  next
    fix i
    have "\<not> (rd square_map (int i) = Some 1 \<and> rd square_map (int i) = Some 0)" by auto
    then show "?f i ?s1 = ?s1" by (rule scan_step_skip)
  qed
  then show ?thesis by simp
qed

lemma square_smart_empty:
  assumes "opt_mode options = smart" and "0 \<le> opt_tolerance options"
    and "opt_tolerance options \<le> 147"
  shows "detectSegments square_img 100 100 options = []"
proof -
  have c: "isContentMap square_img 100 100 (toleranceOf options) = square_map"
    by (rule square_isContentMap) (rule toleranceOf_range[OF assms(2,3)])+
  have "smartRects square_img 100 100 options = []"
    by (simp only: smartRects_fold c square_scan minArea_def) simp
  with assms(1) show ?thesis by (simp add: detectSegments_def)
qed

text \<open>
  C4, as stated, fails in its second half. On the 100 x 100 black buffer with the white
  20 x 20 square the flood-fill mask is exactly the square, but smart mode returns no Rect
  at all, not one: the square is a single component of 400 pixels, the threshold is the
  constant \<^verbatim>\<open>minArea = 400\<close>, and a component is kept only if \<^verbatim>\<open>count > minArea\<close>.
\<close>

theorem square_smart_counterexample:
  "generateFloodFillMask square_img 100 100 10 = square_map \<and>
   detectSegments square_img 100 100 (smart_options 20) = [] \<and>
   length (detectSegments square_img 100 100 (smart_options 20)) \<noteq> 1"
proof -
  have "detectSegments square_img 100 100 (smart_options 20) = []"
    by (rule square_smart_empty) (simp_all add: smart_options_def)
  then show ?thesis by (simp add: square_mask square_map_def)
qed

text \<open>
  C4, amended: for the 100 x 100 buffer that is black except for the white 20 x 20 square at
  (40, 40)-(60, 60), \<open>generateFloodFillMask\<close> with tolerance 10 yields the mask whose
  foreground is exactly the square, 400 pixels. In smart mode, with a tolerance from 0 to
  147, the content map is that same mask, and the component search started at the first
  pixel of the square marks exactly the square and counts 400 pixels with the bounding box
  \<open>minX = 40\<close>, \<open>maxX = 59\<close>, \<open>minY = 40\<close>, \<open>maxY = 59\<close>. As 400 is not above \<open>minArea\<close>, the
  component is dropped and \<open>detectSegments\<close> returns the empty list. The same scan with a
  threshold \<open>m\<close> in place of \<open>minArea\<close> returns exactly one Rect, the padded and clamped box
  of the square, if \<open>m < 400\<close>, and none otherwise; with the default padding 10 the Rect is
  \<open>(30, 30, 39, 39)\<close>.
\<close>

theorem square_component_at_threshold:
  assumes "opt_mode options = smart" and "0 \<le> opt_tolerance options"
    and "opt_tolerance options \<le> 147"
  shows "generateFloodFillMask square_img 100 100 10 = square_map \<and>
         length (filter (\<lambda>v. v = 1) (generateFloodFillMask square_img 100 100 10)) = 400 \<and>
         isContentMap square_img 100 100 (toleranceOf options) = square_map \<and>
         comp_loop square_map 100 100 (wr (replicate (100 * 100) 0) 4040 1) [4040]
             (40, 40, 40, 40, 0)
           = (square_map, 40, 59, 40, 59, 400) \<and>
         \<not> 400 > minArea \<and>
         detectSegments square_img 100 100 options = [] \<and>
         snd (fold (scan_step m square_map 100 100 (padOf options)) [0..<100 * 100]
                (replicate (100 * 100) 0, []))
           = (if m < 400 then [paddedRect 100 100 (padOf options) 40 59 40 59] else [])"
proof -
  have a: "generateFloodFillMask square_img 100 100 10 = square_map"
    by (simp only: square_mask square_map_def)
  have b: "isContentMap square_img 100 100 (toleranceOf options) = square_map"
    by (rule square_isContentMap) (rule toleranceOf_range[OF assms(2,3)])+
  have c: "comp_loop square_map 100 100 (wr (replicate (100 * 100) 0) 4040 1) [4040]
             (40, 40, 40, 40, 0) = (square_map, 40, 59, 40, 59, 400)"
    using square_component by (simp add: square_seeded_def)
  have d: "\<not> 400 > minArea" by (simp add: minArea_def)
  have e: "snd (fold (scan_step m square_map 100 100 (padOf options)) [0..<100 * 100]
                (replicate (100 * 100) 0, []))
           = (if m < 400 then [paddedRect 100 100 (padOf options) 40 59 40 59] else [])"
    by (simp only: square_scan snd_conv)
  from a square_mask_count b c d square_smart_empty[OF assms] e show ?thesis by blast
qed

theorem square_component_at_threshold_witness:
  "opt_mode (smart_options 20) = smart \<and> 0 \<le> opt_tolerance (smart_options 20) \<and>
   opt_tolerance (smart_options 20) \<le> 147 \<and>
   length (filter (\<lambda>v. v = 1) (generateFloodFillMask square_img 100 100 10)) = 400 \<and>
   isContentMap square_img 100 100 20 = square_map \<and>
   detectSegments square_img 100 100 (smart_options 20) = [] \<and>
   snd (fold (scan_step 399 square_map 100 100 10) [0..<100 * 100] (replicate (100 * 100) 0, []))
     = [\<lparr>rect_x = 30, rect_y = 30, rect_w = 39, rect_h = 39\<rparr>]"
proof -
  have o: "opt_mode (smart_options 20) = smart" "0 \<le> opt_tolerance (smart_options 20)"
    "opt_tolerance (smart_options 20) \<le> 147"
    by (simp_all add: smart_options_def)
  have p: "padOf (smart_options 20) = 10" "toleranceOf (smart_options 20) = 20"
    by (simp_all add: padOf_def toleranceOf_def smart_options_def)
  have r: "paddedRect 100 100 10 40 59 40 59 = \<lparr>rect_x = 30, rect_y = 30, rect_w = 39, rect_h = 39\<rparr>"
    by (simp add: paddedRect_def)
  note t = square_component_at_threshold[OF o, of 399, unfolded p r]
  from t have c1: "length (filter (\<lambda>v. v = 1) (generateFloodFillMask square_img 100 100 10)) = 400"
    by blast
  from t have c2: "isContentMap square_img 100 100 20 = square_map" by blast
  from t have c3: "detectSegments square_img 100 100 (smart_options 20) = []" by blast
  from t have "snd (fold (scan_step 399 square_map 100 100 10) [0..<100 * 100]
                      (replicate (100 * 100) 0, []))
               = (if (399::nat) < 400
                  then [\<lparr>rect_x = 30, rect_y = 30, rect_w = 39, rect_h = 39\<rparr>] else [])"
    by blast
  moreover have "(399::nat) < 400" by simp
  ultimately have c4: "snd (fold (scan_step 399 square_map 100 100 10) [0..<100 * 100]
                      (replicate (100 * 100) 0, []))
               = [\<lparr>rect_x = 30, rect_y = 30, rect_w = 39, rect_h = 39\<rparr>]"
    by (simp only: if_True)
  from o c1 c2 c3 c4 show ?thesis by blast
qed

end
